theory Spec2Isabelle
  imports Main
begin

section \<open>Data model of \<^verbatim>\<open>src/main.cpp\<close>\<close>

text \<open>
  The game is embedded with explicit state passing. The C++ objects \<^verbatim>\<open>snake_t\<close> and
  \<^verbatim>\<open>fruit_t\<close> both hold a reference to the one \<^verbatim>\<open>game_field_t\<close> created in
  \<^verbatim>\<open>game_loop\<close>; the model keeps that shared field, the snake's position list, the
  fruit's position and the members of \<^verbatim>\<open>game_logic_t\<close> in one record.

  All coordinates are C++ \<^verbatim>\<open>int\<close>, modelled as \<^typ>\<open>int\<close>. The \<^verbatim>\<open>lengthen_snake_*\<close>
  functions test the head against the edge before they add or subtract 1, and the fruit
  generator only stores values of the distribution, so the only arithmetic that could
  leave the 32-bit range is the step of \<^verbatim>\<open>is_fruit_in_direction\<close> from a head at the
  limit of \<^verbatim>\<open>int\<close>. In the states the program reaches the snake lies inside the 10 by 10
  field and the values computed are between \<open>-1\<close> and \<open>10\<close>.
\<close>

definition field_width :: int where
  "field_width = 10"

definition field_height :: int where
  "field_height = 10"

text \<open>\<^verbatim>\<open>struct position_t { int i; int j; }\<close> (fields renamed \<open>pos_i\<close>, \<open>pos_j\<close>).\<close>

record position_t =
  pos_i :: int
  pos_j :: int

datatype cell_type = EMPTY | SNAKE_HEAD | SNAKE_BODY | FRUIT | ERROR

datatype direction_type = UP | DOWN | LEFT | RIGHT

text \<open>
  The result of \<^verbatim>\<open>event.get_key()\<close> as the \<^verbatim>\<open>switch\<close> of \<^verbatim>\<open>game_loop\<close> sees it: one of the
  five SDL scancodes it has a \<^verbatim>\<open>case\<close> for, or any other value (the \<^verbatim>\<open>default\<close> branch; the
  initial \<^verbatim>\<open>SDL_SCANCODE_G\<close> is one).
\<close>

datatype scancode =
  SCANCODE_UP | SCANCODE_LEFT | SCANCODE_DOWN | SCANCODE_RIGHT | SCANCODE_ESCAPE | SCANCODE_OTHER

text \<open>
  Two ways an operation can fail to return a value: the string literal thrown by the
  \<^verbatim>\<open>lengthen_snake_*\<close> functions (\<open>BlockedMove\<close>), and an access that C++ leaves undefined
  (\<open>Undefined\<close>): an index outside \<^verbatim>\<open>m_field\<close>, or \<^verbatim>\<open>front()\<close>/\<^verbatim>\<open>back()\<close> of an empty list.
\<close>

datatype error = BlockedMove | Undefined

text \<open>
  \<^verbatim>\<open>matrix<cell_type, height, width> m_field\<close>: rows indexed by the first argument. The
  function is only ever applied through \<open>field_get\<close> and \<open>field_put\<close>, which check that
  the indices address an element of the array.
\<close>

type_synonym game_field_t = "int \<Rightarrow> int \<Rightarrow> cell_type"

definition in_array :: "int \<Rightarrow> int \<Rightarrow> bool" where
  "in_array t_i t_j \<longleftrightarrow> 0 \<le> t_i \<and> t_i < field_height \<and> 0 \<le> t_j \<and> t_j < field_width"

text \<open>\<^verbatim>\<open>operator()(t_i, t_j) const\<close>: \<^verbatim>\<open>m_field[t_i][t_j]\<close>, with no bounds check.\<close>

definition field_get :: "game_field_t \<Rightarrow> int \<Rightarrow> int \<Rightarrow> error + cell_type" where
  "field_get f t_i t_j = (if in_array t_i t_j then Inr (f t_i t_j) else Inl Undefined)"

text \<open>\<^verbatim>\<open>operator()(t_i, t_j) = v\<close>: assignment through the returned reference.\<close>

definition field_put :: "game_field_t \<Rightarrow> int \<Rightarrow> int \<Rightarrow> cell_type \<Rightarrow> error + game_field_t" where
  "field_put f t_i t_j v =
     (if in_array t_i t_j then Inr (f(t_i := (f t_i)(t_j := v))) else Inl Undefined)"

text \<open>\<^verbatim>\<open>game_field_t::at\<close>, the bounds-checked accessor (it compares \<open>t_i\<close> with the width).\<close>

definition at :: "game_field_t \<Rightarrow> int \<Rightarrow> int \<Rightarrow> error + cell_type" where
  "at f t_i t_j =
     (if t_i \<ge> field_width \<or> t_i < 0 \<or> t_j \<ge> field_height \<or> t_j < 0 then Inr ERROR
      else field_get f t_i t_j)"

text \<open>The constructor \<^verbatim>\<open>game_field_t()\<close> fills every line with \<open>EMPTY\<close>.\<close>

definition game_field_new :: game_field_t where
  "game_field_new = (\<lambda>_ _. EMPTY)"

record game_logic_t =
  m_field :: game_field_t
  m_snake_positions :: "position_t list"
  m_position :: position_t
  m_game_running :: bool
  m_score :: int
  m_direction :: direction_type

section \<open>\<^verbatim>\<open>snake_t\<close>\<close>

text \<open>The \<^verbatim>\<open>for\<close> loop of \<^verbatim>\<open>snake_t::update_field\<close> over the cells after the head.\<close>

fun mark_body :: "position_t list \<Rightarrow> game_field_t \<Rightarrow> error + game_field_t" where
  "mark_body [] f = Inr f"
| "mark_body (c # cs) f =
     (case field_put f (pos_i c) (pos_j c) SNAKE_BODY of
        Inl e \<Rightarrow> Inl e
      | Inr f' \<Rightarrow> mark_body cs f')"

definition snake_update_field :: "game_logic_t \<Rightarrow> error + game_logic_t" where
  "snake_update_field g =
     (case m_snake_positions g of
        [] \<Rightarrow> Inl Undefined
      | h # cs \<Rightarrow>
          (case field_put (m_field g) (pos_i h) (pos_j h) SNAKE_HEAD of
             Inl e \<Rightarrow> Inl e
           | Inr f1 \<Rightarrow>
               (case mark_body cs f1 of
                  Inl e \<Rightarrow> Inl e
                | Inr f2 \<Rightarrow> Inr (g\<lparr>m_field := f2\<rparr>))))"

definition pop_back_snake_body :: "game_logic_t \<Rightarrow> error + game_logic_t" where
  "pop_back_snake_body g =
     (case m_snake_positions g of
        [] \<Rightarrow> Inl Undefined
      | _ # _ \<Rightarrow>
          (let pos = last (m_snake_positions g) in
           case field_put (m_field g) (pos_i pos) (pos_j pos) EMPTY of
             Inl e \<Rightarrow> Inl e
           | Inr f' \<Rightarrow> Inr (g\<lparr>m_field := f', m_snake_positions := butlast (m_snake_positions g)\<rparr>)))"

definition is_space_for_snake :: "game_logic_t \<Rightarrow> position_t \<Rightarrow> error + bool" where
  "is_space_for_snake g t_pos =
     (case field_get (m_field g) (pos_i t_pos) (pos_j t_pos) of
        Inl e \<Rightarrow> Inl e
      | Inr c \<Rightarrow> Inr (c = EMPTY \<or> c = FRUIT))"

text \<open>The constructor \<^verbatim>\<open>snake_t(game_field_t&)\<close>.\<close>

definition snake_new :: "game_logic_t \<Rightarrow> error + game_logic_t" where
  "snake_new g =
     snake_update_field
       (g\<lparr>m_snake_positions :=
            m_snake_positions g @
            [\<lparr>pos_i = field_height div 2 - 1, pos_j = field_width div 2 - 1\<rparr>]\<rparr>)"

definition lengthen_snake_up :: "game_logic_t \<Rightarrow> error + game_logic_t" where
  "lengthen_snake_up g =
     (case m_snake_positions g of
        [] \<Rightarrow> Inl Undefined
      | head_pos # _ \<Rightarrow>
          if pos_i head_pos \<le> 0 then Inl BlockedMove
          else
            (case is_space_for_snake g \<lparr>pos_i = pos_i head_pos - 1, pos_j = pos_j head_pos\<rparr> of
               Inl e \<Rightarrow> Inl e
             | Inr ok \<Rightarrow>
                 if \<not> ok then Inl BlockedMove
                 else snake_update_field
                   (g\<lparr>m_snake_positions :=
                        \<lparr>pos_i = pos_i head_pos - 1, pos_j = pos_j head_pos\<rparr>
                        # m_snake_positions g\<rparr>)))"

definition move_up :: "game_logic_t \<Rightarrow> error + game_logic_t" where
  "move_up g =
     (case lengthen_snake_up g of Inl e \<Rightarrow> Inl e | Inr g' \<Rightarrow> pop_back_snake_body g')"

definition lengthen_snake_down :: "game_logic_t \<Rightarrow> error + game_logic_t" where
  "lengthen_snake_down g =
     (case m_snake_positions g of
        [] \<Rightarrow> Inl Undefined
      | head_pos # _ \<Rightarrow>
          if pos_i head_pos \<ge> field_height - 1 then Inl BlockedMove
          else
            (case is_space_for_snake g \<lparr>pos_i = pos_i head_pos + 1, pos_j = pos_j head_pos\<rparr> of
               Inl e \<Rightarrow> Inl e
             | Inr ok \<Rightarrow>
                 if \<not> ok then Inl BlockedMove
                 else snake_update_field
                   (g\<lparr>m_snake_positions :=
                        \<lparr>pos_i = pos_i head_pos + 1, pos_j = pos_j head_pos\<rparr>
                        # m_snake_positions g\<rparr>)))"

definition move_down :: "game_logic_t \<Rightarrow> error + game_logic_t" where
  "move_down g =
     (case lengthen_snake_down g of Inl e \<Rightarrow> Inl e | Inr g' \<Rightarrow> pop_back_snake_body g')"

definition lengthen_snake_left :: "game_logic_t \<Rightarrow> error + game_logic_t" where
  "lengthen_snake_left g =
     (case m_snake_positions g of
        [] \<Rightarrow> Inl Undefined
      | head_pos # _ \<Rightarrow>
          if pos_j head_pos \<le> 0 then Inl BlockedMove
          else
            (case is_space_for_snake g \<lparr>pos_i = pos_i head_pos, pos_j = pos_j head_pos - 1\<rparr> of
               Inl e \<Rightarrow> Inl e
             | Inr ok \<Rightarrow>
                 if \<not> ok then Inl BlockedMove
                 else snake_update_field
                   (g\<lparr>m_snake_positions :=
                        \<lparr>pos_i = pos_i head_pos, pos_j = pos_j head_pos - 1\<rparr>
                        # m_snake_positions g\<rparr>)))"

definition move_left :: "game_logic_t \<Rightarrow> error + game_logic_t" where
  "move_left g =
     (case lengthen_snake_left g of Inl e \<Rightarrow> Inl e | Inr g' \<Rightarrow> pop_back_snake_body g')"

definition lengthen_snake_right :: "game_logic_t \<Rightarrow> error + game_logic_t" where
  "lengthen_snake_right g =
     (case m_snake_positions g of
        [] \<Rightarrow> Inl Undefined
      | head_pos # _ \<Rightarrow>
          if pos_j head_pos \<ge> field_width - 1 then Inl BlockedMove
          else
            (case is_space_for_snake g \<lparr>pos_i = pos_i head_pos, pos_j = pos_j head_pos + 1\<rparr> of
               Inl e \<Rightarrow> Inl e
             | Inr ok \<Rightarrow>
                 if \<not> ok then Inl BlockedMove
                 else snake_update_field
                   (g\<lparr>m_snake_positions :=
                        \<lparr>pos_i = pos_i head_pos, pos_j = pos_j head_pos + 1\<rparr>
                        # m_snake_positions g\<rparr>)))"

definition move_right :: "game_logic_t \<Rightarrow> error + game_logic_t" where
  "move_right g =
     (case lengthen_snake_right g of Inl e \<Rightarrow> Inl e | Inr g' \<Rightarrow> pop_back_snake_body g')"

section \<open>\<^verbatim>\<open>fruit_t\<close>\<close>

text \<open>
  \<^verbatim>\<open>gen_new_position\<close> seeds a fresh \<^verbatim>\<open>std::mt19937\<close> from \<^verbatim>\<open>std::random_device\<close> on
  every call. The model takes the successive values of \<^verbatim>\<open>dist(rng)\<close> of that call as a
  stream \<open>dist :: nat \<Rightarrow> int\<close>; \<^verbatim>\<open>uniform_int_distribution<int>{0, height - 1}\<close> promises
  \<open>dist_in_range\<close>. The \<^verbatim>\<open>while\<close> loop may run forever, so it is a partial function:
  \<open>None\<close> means that it never returns.
\<close>

type_synonym dist_t = "nat \<Rightarrow> int"

definition dist_in_range :: "dist_t \<Rightarrow> bool" where
  "dist_in_range dist \<longleftrightarrow> (\<forall>k. 0 \<le> dist k \<and> dist k \<le> field_height - 1)"

partial_function (option) resample ::
  "game_field_t \<Rightarrow> dist_t \<Rightarrow> nat \<Rightarrow> position_t \<Rightarrow> (error + position_t) option"
where
  "resample f dist k pos =
     (case field_get f (pos_i pos) (pos_j pos) of
        Inl e \<Rightarrow> Some (Inl e)
      | Inr c \<Rightarrow>
          if c \<noteq> EMPTY then resample f dist (k + 2) \<lparr>pos_i = dist k, pos_j = dist (k + 1)\<rparr>
          else Some (Inr pos))"

declare resample.simps [code]

definition gen_new_position :: "game_field_t \<Rightarrow> dist_t \<Rightarrow> (error + position_t) option" where
  "gen_new_position f dist = resample f dist 2 \<lparr>pos_i = dist 0, pos_j = dist 1\<rparr>"

definition fruit_update_field :: "game_logic_t \<Rightarrow> error + game_logic_t" where
  "fruit_update_field g =
     (case field_put (m_field g) (pos_i (m_position g)) (pos_j (m_position g)) FRUIT of
        Inl e \<Rightarrow> Inl e
      | Inr f' \<Rightarrow> Inr (g\<lparr>m_field := f'\<rparr>))"

text \<open>
  \<^verbatim>\<open>fruit_t::new_position\<close>; the constructor \<^verbatim>\<open>fruit_t(game_field_t&)\<close> has the same body.
\<close>

definition new_position :: "dist_t \<Rightarrow> game_logic_t \<Rightarrow> (error + game_logic_t) option" where
  "new_position dist g =
     (case gen_new_position (m_field g) dist of
        None \<Rightarrow> None
      | Some (Inl e) \<Rightarrow> Some (Inl e)
      | Some (Inr pos) \<Rightarrow> Some (fruit_update_field (g\<lparr>m_position := pos\<rparr>)))"

section \<open>\<^verbatim>\<open>game_logic_t\<close>\<close>

definition is_fruit_in_direction :: "game_logic_t \<Rightarrow> error + bool" where
  "is_fruit_in_direction g =
     (case m_snake_positions g of
        [] \<Rightarrow> Inl Undefined
      | head_pos # _ \<Rightarrow>
          (let pos = (case m_direction g of
                        UP \<Rightarrow> head_pos\<lparr>pos_i := pos_i head_pos - 1\<rparr>
                      | DOWN \<Rightarrow> head_pos\<lparr>pos_i := pos_i head_pos + 1\<rparr>
                      | LEFT \<Rightarrow> head_pos\<lparr>pos_j := pos_j head_pos - 1\<rparr>
                      | RIGHT \<Rightarrow> head_pos\<lparr>pos_j := pos_j head_pos + 1\<rparr>)
           in case field_get (m_field g) (pos_i pos) (pos_j pos) of
                Inl e \<Rightarrow> Inl e
              | Inr c \<Rightarrow> Inr (c = FRUIT)))"

text \<open>
  The body that \<^verbatim>\<open>handle_movement\<close> repeats in each of its four cases, given the answer
  \<open>fruit\<close> of \<^verbatim>\<open>is_fruit_in_direction\<close>: \<^verbatim>\<open>try { lengthen; new_position } catch(...)\<close> or
  \<^verbatim>\<open>try { move } catch(...)\<close>. The functions throw before they change anything, so the
  handler runs on the state \<open>g\<close>.
\<close>

definition try_step ::
  "bool \<Rightarrow> (game_logic_t \<Rightarrow> error + game_logic_t) \<Rightarrow> (game_logic_t \<Rightarrow> error + game_logic_t) \<Rightarrow>
   dist_t \<Rightarrow> game_logic_t \<Rightarrow> (error + game_logic_t) option"
where
  "try_step fruit lengthen move dist g =
     (if fruit then
        (case lengthen g of
           Inl BlockedMove \<Rightarrow> Some (Inr (g\<lparr>m_game_running := False\<rparr>))
         | Inl Undefined \<Rightarrow> Some (Inl Undefined)
         | Inr g' \<Rightarrow> new_position dist g')
      else
        (case move g of
           Inl BlockedMove \<Rightarrow> Some (Inr (g\<lparr>m_game_running := False\<rparr>))
         | Inl Undefined \<Rightarrow> Some (Inl Undefined)
         | Inr g' \<Rightarrow> Some (Inr g')))"

definition handle_movement :: "dist_t \<Rightarrow> game_logic_t \<Rightarrow> (error + game_logic_t) option" where
  "handle_movement dist g =
     (case m_direction g of
        UP \<Rightarrow>
          (case is_fruit_in_direction g of
             Inl e \<Rightarrow> Some (Inl e)
           | Inr fruit \<Rightarrow> try_step fruit lengthen_snake_up move_up dist g)
      | DOWN \<Rightarrow>
          (case is_fruit_in_direction g of
             Inl e \<Rightarrow> Some (Inl e)
           | Inr fruit \<Rightarrow> try_step fruit lengthen_snake_down move_down dist g)
      | LEFT \<Rightarrow>
          (case is_fruit_in_direction g of
             Inl e \<Rightarrow> Some (Inl e)
           | Inr fruit \<Rightarrow> try_step fruit lengthen_snake_left move_left dist g)
      | RIGHT \<Rightarrow>
          (case is_fruit_in_direction g of
             Inl e \<Rightarrow> Some (Inl e)
           | Inr fruit \<Rightarrow> try_step fruit lengthen_snake_right move_right dist g))"

text \<open>The \<^verbatim>\<open>switch(event.get_key())\<close> of \<^verbatim>\<open>game_loop\<close>.\<close>

definition handle_key :: "scancode \<Rightarrow> game_logic_t \<Rightarrow> game_logic_t" where
  "handle_key key g =
     (case key of
        SCANCODE_UP \<Rightarrow> if m_direction g = DOWN then g else g\<lparr>m_direction := UP\<rparr>
      | SCANCODE_LEFT \<Rightarrow> if m_direction g = RIGHT then g else g\<lparr>m_direction := LEFT\<rparr>
      | SCANCODE_DOWN \<Rightarrow> if m_direction g = UP then g else g\<lparr>m_direction := DOWN\<rparr>
      | SCANCODE_RIGHT \<Rightarrow> if m_direction g = LEFT then g else g\<lparr>m_direction := RIGHT\<rparr>
      | SCANCODE_ESCAPE \<Rightarrow> g\<lparr>m_game_running := False\<rparr>
      | SCANCODE_OTHER \<Rightarrow> g)"

text \<open>
  One logic update: the body of \<^verbatim>\<open>if(waited_time >= globals::max_wait_time_ms)\<close>.
\<close>

definition tick :: "scancode \<Rightarrow> dist_t \<Rightarrow> game_logic_t \<Rightarrow> (error + game_logic_t) option" where
  "tick key dist g = handle_movement dist (handle_key key g)"

text \<open>
  The locals of \<^verbatim>\<open>game_loop\<close> before the loop: an empty field, the snake, the fruit, and
  the default members of \<^verbatim>\<open>game_logic_t\<close>.
\<close>

definition game_new :: "dist_t \<Rightarrow> (error + game_logic_t) option" where
  "game_new dist =
     (case snake_new
             \<lparr>m_field = game_field_new, m_snake_positions = [],
              m_position = \<lparr>pos_i = 0, pos_j = 0\<rparr>,
              m_game_running = True, m_score = 0, m_direction = UP\<rparr> of
        Inl e \<Rightarrow> Some (Inl e)
      | Inr g \<Rightarrow> new_position dist g)"

text \<open>
  The loop of \<^verbatim>\<open>game_loop\<close>. Iterations in which no logic update is due only draw and
  poll; the model lists the other ones: \<open>TickDue key dist\<close> is an iteration that runs a
  logic update with the last pressed key \<open>key\<close>, and \<open>WindowClosed\<close> is the loop head
  finding \<^verbatim>\<open>event.quit()\<close> set. When the loop is left, \<^verbatim>\<open>m_score\<close> is assigned. \<open>None\<close>: the
  loop has not been left after these events, or a fruit was never placed.
\<close>

datatype loop_event = WindowClosed | TickDue scancode dist_t

definition leave_loop :: "game_logic_t \<Rightarrow> game_logic_t" where
  "leave_loop g = g\<lparr>m_score := int (length (m_snake_positions g))\<rparr>"

fun game_loop_from :: "loop_event list \<Rightarrow> game_logic_t \<Rightarrow> (error + game_logic_t) option" where
  "game_loop_from evs g =
     (if \<not> m_game_running g then Some (Inr (leave_loop g))
      else case evs of
        [] \<Rightarrow> None
      | WindowClosed # _ \<Rightarrow> Some (Inr (leave_loop g))
      | TickDue key dist # rest \<Rightarrow>
          (case tick key dist g of
             None \<Rightarrow> None
           | Some (Inl e) \<Rightarrow> Some (Inl e)
           | Some (Inr g') \<Rightarrow> game_loop_from rest g'))"

definition game_loop :: "dist_t \<Rightarrow> loop_event list \<Rightarrow> (error + game_logic_t) option" where
  "game_loop dist evs =
     (case game_new dist of
        None \<Rightarrow> None
      | Some (Inl e) \<Rightarrow> Some (Inl e)
      | Some (Inr g) \<Rightarrow> game_loop_from evs g)"

text \<open>
  The states the loop can be in at its head: the state after construction, and the state
  after a logic update run from a state in which the loop condition held.
\<close>

inductive reachable :: "game_logic_t \<Rightarrow> bool" where
  reachable_new: "game_new dist = Some (Inr g) \<Longrightarrow> reachable g"
| reachable_tick:
    "reachable g \<Longrightarrow> m_game_running g \<Longrightarrow> tick key dist g = Some (Inr g') \<Longrightarrow> reachable g'"

section \<open>Notions used to state the properties\<close>

text \<open>The cell stored for a position, and whether a position addresses a cell of the array.\<close>

definition cell_at :: "game_field_t \<Rightarrow> position_t \<Rightarrow> cell_type" where
  "cell_at f p = f (pos_i p) (pos_j p)"

definition in_field :: "position_t \<Rightarrow> bool" where
  "in_field p \<longleftrightarrow> in_array (pos_i p) (pos_j p)"

text \<open>Grid-adjacent: equal on one axis and differing by 1 on the other.\<close>

definition adjacent :: "position_t \<Rightarrow> position_t \<Rightarrow> bool" where
  "adjacent p q \<longleftrightarrow>
     (pos_i p = pos_i q \<and> \<bar>pos_j p - pos_j q\<bar> = 1) \<or>
     (pos_j p = pos_j q \<and> \<bar>pos_i p - pos_i q\<bar> = 1)"

fun linked :: "position_t list \<Rightarrow> bool" where
  "linked [] = True"
| "linked [p] = True"
| "linked (p # q # ps) = (adjacent p q \<and> linked (q # ps))"

definition snake_inv :: "game_logic_t \<Rightarrow> bool" where
  "snake_inv g \<longleftrightarrow>
     1 \<le> length (m_snake_positions g) \<and> distinct (m_snake_positions g) \<and>
     list_all in_field (m_snake_positions g) \<and> linked (m_snake_positions g)"

text \<open>Every position of the array, row by row, and the number of cells holding a value.\<close>

definition all_positions :: "position_t list" where
  "all_positions =
     concat (map (\<lambda>a. map (\<lambda>b. \<lparr>pos_i = a, pos_j = b\<rparr>) [0..field_width - 1])
       [0..field_height - 1])"

definition count_cells :: "game_field_t \<Rightarrow> cell_type \<Rightarrow> nat" where
  "count_cells f c = length (filter (\<lambda>p. cell_at f p = c) all_positions)"

text \<open>
  The field agrees with the snake: the head's cell is \<open>SNAKE_HEAD\<close>, the other cells of the
  snake are \<open>SNAKE_BODY\<close>, every other cell of the array is \<open>EMPTY\<close> or \<open>FRUIT\<close>.
\<close>

definition grid_agree :: "game_logic_t \<Rightarrow> bool" where
  "grid_agree g \<longleftrightarrow>
     (case m_snake_positions g of
        [] \<Rightarrow> False
      | h # cs \<Rightarrow>
          list_all
            (\<lambda>p. if p = h then cell_at (m_field g) p = SNAKE_HEAD
                 else if p \<in> set cs then cell_at (m_field g) p = SNAKE_BODY
                 else cell_at (m_field g) p = EMPTY \<or> cell_at (m_field g) p = FRUIT)
            all_positions)"

text \<open>The only cell that can hold \<open>FRUIT\<close> is the one at the fruit's position.\<close>

definition fruit_inv :: "game_logic_t \<Rightarrow> bool" where
  "fruit_inv g \<longleftrightarrow>
     list_all (\<lambda>p. cell_at (m_field g) p = FRUIT \<longrightarrow> p = m_position g) all_positions"

definition game_inv :: "game_logic_t \<Rightarrow> bool" where
  "game_inv g \<longleftrightarrow> snake_inv g \<and> grid_agree g \<and> fruit_inv g"

text \<open>The candidate head: the position one step from \<open>p\<close> in a direction.\<close>

definition step_pos :: "direction_type \<Rightarrow> position_t \<Rightarrow> position_t" where
  "step_pos d p =
     (case d of
        UP \<Rightarrow> \<lparr>pos_i = pos_i p - 1, pos_j = pos_j p\<rparr>
      | DOWN \<Rightarrow> \<lparr>pos_i = pos_i p + 1, pos_j = pos_j p\<rparr>
      | LEFT \<Rightarrow> \<lparr>pos_i = pos_i p, pos_j = pos_j p - 1\<rparr>
      | RIGHT \<Rightarrow> \<lparr>pos_i = pos_i p, pos_j = pos_j p + 1\<rparr>)"

text \<open>The growth and the movement operation of a direction.\<close>

definition lengthen_snake :: "direction_type \<Rightarrow> game_logic_t \<Rightarrow> error + game_logic_t" where
  "lengthen_snake d =
     (case d of
        UP \<Rightarrow> lengthen_snake_up | DOWN \<Rightarrow> lengthen_snake_down
      | LEFT \<Rightarrow> lengthen_snake_left | RIGHT \<Rightarrow> lengthen_snake_right)"

definition move_snake :: "direction_type \<Rightarrow> game_logic_t \<Rightarrow> error + game_logic_t" where
  "move_snake d =
     (case d of
        UP \<Rightarrow> move_up | DOWN \<Rightarrow> move_down | LEFT \<Rightarrow> move_left | RIGHT \<Rightarrow> move_right)"

text \<open>The key that asks for the reverse of a heading.\<close>

definition reverse_key :: "direction_type \<Rightarrow> scancode" where
  "reverse_key d =
     (case d of
        UP \<Rightarrow> SCANCODE_DOWN | DOWN \<Rightarrow> SCANCODE_UP
      | LEFT \<Rightarrow> SCANCODE_RIGHT | RIGHT \<Rightarrow> SCANCODE_LEFT)"

text \<open>
  The \<open>n\<close>-th position drawn from a stream (two values each), and the stream that draws
  the position \<open>(a, b)\<close> every time.
\<close>

definition drawn :: "dist_t \<Rightarrow> nat \<Rightarrow> position_t" where
  "drawn dist n = \<lparr>pos_i = dist (2 * n), pos_j = dist (2 * n + 1)\<rparr>"

definition always :: "int \<Rightarrow> int \<Rightarrow> dist_t" where
  "always a b = (\<lambda>k. if even k then a else b)"

text \<open>The edge test that each \<^verbatim>\<open>lengthen_snake_*\<close> makes on the head before it looks at the field.\<close>

definition at_edge :: "direction_type \<Rightarrow> position_t \<Rightarrow> bool" where
  "at_edge d p =
     (case d of
        UP \<Rightarrow> pos_i p \<le> 0
      | DOWN \<Rightarrow> pos_i p \<ge> field_height - 1
      | LEFT \<Rightarrow> pos_j p \<le> 0
      | RIGHT \<Rightarrow> pos_j p \<ge> field_width - 1)"

text \<open>The field stores no \<open>ERROR\<close>: that value is only ever returned by \<open>at\<close>.\<close>

definition no_error_cells :: "game_logic_t \<Rightarrow> bool" where
  "no_error_cells g \<longleftrightarrow> list_all (\<lambda>p. cell_at (m_field g) p \<noteq> ERROR) all_positions"

text \<open>
  A run of logic updates from a state at the loop head, each made only while the loop
  condition holds; it gives the state the loop is in after them.
\<close>

fun ticks :: "(scancode \<times> dist_t) list \<Rightarrow> game_logic_t \<Rightarrow> (error + game_logic_t) option" where
  "ticks [] g = Some (Inr g)"
| "ticks ((key, dist) # rest) g =
     (if \<not> m_game_running g then Some (Inr g)
      else case tick key dist g of
        None \<Rightarrow> None
      | Some (Inl e) \<Rightarrow> Some (Inl e)
      | Some (Inr g') \<Rightarrow> ticks rest g')"

text \<open>
  Concrete states at which the theorems are instantiated. \<open>lone_snake h fr\<close>: a running session heading up
  whose snake is the single cell \<open>h\<close>, with the fruit at \<open>fr\<close>. \<open>coiled\<close>: a snake of four
  cells in a square, heading down, whose head is left of its tail.
\<close>

definition lone_snake :: "position_t \<Rightarrow> position_t \<Rightarrow> game_logic_t" where
  "lone_snake h fr =
     \<lparr>m_field = (\<lambda>a b. if a = pos_i fr \<and> b = pos_j fr then FRUIT
                        else if a = pos_i h \<and> b = pos_j h then SNAKE_HEAD else EMPTY),
      m_snake_positions = [h], m_position = fr,
      m_game_running = True, m_score = 0, m_direction = UP\<rparr>"

text \<open>\<open>hatched\<close>: the state in \<^verbatim>\<open>game_loop\<close> after \<^verbatim>\<open>snake_t snake{ field }\<close>, before the fruit exists.\<close>

definition hatched :: game_logic_t where
  "hatched =
     \<lparr>m_field = (\<lambda>a b. if a = 4 \<and> b = 4 then SNAKE_HEAD else EMPTY),
      m_snake_positions = [\<lparr>pos_i = 4, pos_j = 4\<rparr>],
      m_position = \<lparr>pos_i = 0, pos_j = 0\<rparr>,
      m_game_running = True, m_score = 0, m_direction = UP\<rparr>"

definition coiled :: game_logic_t where
  "coiled =
     \<lparr>m_field = (\<lambda>a b. if a = 0 \<and> b = 0 then FRUIT
                        else if a = 4 \<and> b = 3 then SNAKE_HEAD
                        else if (a = 3 \<and> b = 3) \<or> (a = 3 \<and> b = 4) \<or> (a = 4 \<and> b = 4)
                          then SNAKE_BODY
                        else EMPTY),
      m_snake_positions =
        [\<lparr>pos_i = 4, pos_j = 3\<rparr>, \<lparr>pos_i = 3, pos_j = 3\<rparr>,
         \<lparr>pos_i = 3, pos_j = 4\<rparr>, \<lparr>pos_i = 4, pos_j = 4\<rparr>],
      m_position = \<lparr>pos_i = 0, pos_j = 0\<rparr>,
      m_game_running = True, m_score = 0, m_direction = DOWN\<rparr>"

section \<open>Positions and the field\<close>

lemma pos_eq_iff: "(p = q) \<longleftrightarrow> (pos_i p = pos_i q \<and> pos_j p = pos_j q)" for p q :: position_t
  by (cases p, cases q) simp

lemma set_all_positions: "set all_positions = {p. in_field p}"
proof -
  have "p \<in> set all_positions \<longleftrightarrow> in_field p" for p
    by (cases p)
       (force simp: all_positions_def in_field_def in_array_def field_width_def field_height_def)
  then show ?thesis by auto
qed

lemma distinct_all_positions: "distinct all_positions"
  unfolding all_positions_def
  by (rule distinct_concat) (auto simp: distinct_map inj_on_def field_width_def field_height_def)

lemma length_all_positions: "length all_positions = 100"
  by (simp add: all_positions_def field_width_def field_height_def length_concat comp_def sum_list_triv)

lemma grid_agree_iff:
  "grid_agree g \<longleftrightarrow>
     (\<exists>h cs. m_snake_positions g = h # cs \<and>
        (\<forall>p. in_field p \<longrightarrow>
           (if p = h then cell_at (m_field g) p = SNAKE_HEAD
            else if p \<in> set cs then cell_at (m_field g) p = SNAKE_BODY
            else cell_at (m_field g) p = EMPTY \<or> cell_at (m_field g) p = FRUIT)))"
  by (cases "m_snake_positions g") (simp_all add: grid_agree_def list_all_iff set_all_positions)

lemma fruit_inv_iff:
  "fruit_inv g \<longleftrightarrow> (\<forall>p. in_field p \<longrightarrow> cell_at (m_field g) p = FRUIT \<longrightarrow> p = m_position g)"
  by (simp add: fruit_inv_def list_all_iff set_all_positions)

lemma field_put_cell:
  "field_put f (pos_i p) (pos_j p) v = Inr f' \<Longrightarrow>
     in_field p \<and> cell_at f' q = (if q = p then v else cell_at f q)"
  by (auto simp: field_put_def in_field_def cell_at_def pos_eq_iff split: if_splits)

lemma field_put_in_field:
  "in_field p \<Longrightarrow> \<exists>f'. field_put f (pos_i p) (pos_j p) v = Inr f'"
  by (simp add: field_put_def in_field_def)

lemma field_put_not_blocked: "field_put f a b v \<noteq> Inl BlockedMove"
  by (simp add: field_put_def)

lemma field_get_cell:
  "field_get f (pos_i p) (pos_j p) = (if in_field p then Inr (cell_at f p) else Inl Undefined)"
  by (simp add: field_get_def in_field_def cell_at_def)

lemma mark_body_cell:
  "mark_body cs f = Inr f' \<Longrightarrow>
     list_all in_field cs \<and> cell_at f' q = (if q \<in> set cs then SNAKE_BODY else cell_at f q)"
proof (induction cs arbitrary: f)
  case Nil
  then show ?case by simp
next
  case (Cons c cs)
  from Cons.prems obtain f1 where
    put: "field_put f (pos_i c) (pos_j c) SNAKE_BODY = Inr f1" and rest: "mark_body cs f1 = Inr f'"
    by (auto split: sum.splits)
  from field_put_cell [OF put, of q] Cons.IH [OF rest] show ?case
    by auto
qed

lemma mark_body_in_field:
  "list_all in_field cs \<Longrightarrow> \<exists>f'. mark_body cs f = Inr f'"
proof (induction cs arbitrary: f)
  case Nil
  then show ?case by simp
next
  case (Cons c cs)
  then obtain f1 where "field_put f (pos_i c) (pos_j c) SNAKE_BODY = Inr f1"
    using field_put_in_field [of c f SNAKE_BODY] by auto
  with Cons show ?case by auto
qed

lemma mark_body_not_blocked: "mark_body cs f \<noteq> Inl BlockedMove"
  by (induction cs arbitrary: f) (auto simp: field_put_not_blocked split: sum.splits)

lemma snake_update_field_not_blocked: "snake_update_field g \<noteq> Inl BlockedMove"
  by (auto simp: snake_update_field_def field_put_not_blocked mark_body_not_blocked
      split: list.splits sum.splits)

lemma snake_update_field_in_field:
  assumes "m_snake_positions g = h # cs" and "list_all in_field (h # cs)"
  shows "\<exists>f'. snake_update_field g = Inr (g\<lparr>m_field := f'\<rparr>) \<and>
           (\<forall>q. cell_at f' q =
              (if q \<in> set cs then SNAKE_BODY else if q = h then SNAKE_HEAD
               else cell_at (m_field g) q))"
proof -
  from assms obtain f1 where put: "field_put (m_field g) (pos_i h) (pos_j h) SNAKE_HEAD = Inr f1"
    using field_put_in_field [of h "m_field g" SNAKE_HEAD] by auto
  from assms obtain f2 where body: "mark_body cs f1 = Inr f2"
    using mark_body_in_field [of cs f1] by auto
  have "cell_at f2 q =
      (if q \<in> set cs then SNAKE_BODY else if q = h then SNAKE_HEAD else cell_at (m_field g) q)"
    for q
    using field_put_cell [OF put, of q] mark_body_cell [OF body, of q] by simp
  moreover have "snake_update_field g = Inr (g\<lparr>m_field := f2\<rparr>)"
    using assms(1) put body by (simp add: snake_update_field_def)
  ultimately show ?thesis by blast
qed

section \<open>The snake operations\<close>

lemma lengthen_snake_unfold:
  "lengthen_snake d g =
     (case m_snake_positions g of
        [] \<Rightarrow> Inl Undefined
      | h # _ \<Rightarrow>
          if at_edge d h then Inl BlockedMove
          else
            (case is_space_for_snake g (step_pos d h) of
               Inl e \<Rightarrow> Inl e
             | Inr ok \<Rightarrow>
                 if \<not> ok then Inl BlockedMove
                 else snake_update_field
                   (g\<lparr>m_snake_positions := step_pos d h # m_snake_positions g\<rparr>)))"
  by (cases d; cases "m_snake_positions g")
     (simp_all add: lengthen_snake_def lengthen_snake_up_def lengthen_snake_down_def
        lengthen_snake_left_def lengthen_snake_right_def step_pos_def at_edge_def
        split: sum.splits)

lemma move_snake_unfold:
  "move_snake d g =
     (case lengthen_snake d g of Inl e \<Rightarrow> Inl e | Inr g' \<Rightarrow> pop_back_snake_body g')"
  by (cases d)
     (simp_all add: move_snake_def lengthen_snake_def move_up_def move_down_def move_left_def
        move_right_def)

lemma in_field_step_pos: "in_field h \<Longrightarrow> in_field (step_pos d h) \<longleftrightarrow> \<not> at_edge d h"
  by (cases d)
     (auto simp: in_field_def in_array_def step_pos_def at_edge_def field_width_def
        field_height_def)

lemma adjacent_step_pos: "adjacent (step_pos d h) h"
  by (cases d) (simp_all add: adjacent_def step_pos_def)

lemma is_space_for_snake_cell:
  "is_space_for_snake g p =
     (if in_field p then Inr (cell_at (m_field g) p = EMPTY \<or> cell_at (m_field g) p = FRUIT)
      else Inl Undefined)"
  by (simp add: is_space_for_snake_def field_get_cell)

text \<open>What a growth step does in a state whose snake lies inside the field.\<close>

lemma lengthen_snake_blocked_iff:
  assumes "m_snake_positions g = h # cs" and "in_field h"
  shows "lengthen_snake d g = Inl BlockedMove \<longleftrightarrow>
           \<not> in_field (step_pos d h) \<or>
           (cell_at (m_field g) (step_pos d h) \<noteq> EMPTY \<and>
            cell_at (m_field g) (step_pos d h) \<noteq> FRUIT)"
  using assms in_field_step_pos [of h d]
  by (auto simp: lengthen_snake_unfold is_space_for_snake_cell snake_update_field_not_blocked)

lemma lengthen_snake_free:
  assumes "m_snake_positions g = h # cs" and "list_all in_field (h # cs)"
    and "in_field (step_pos d h)"
    and "cell_at (m_field g) (step_pos d h) = EMPTY \<or> cell_at (m_field g) (step_pos d h) = FRUIT"
  shows "\<exists>f'. lengthen_snake d g =
             Inr (g\<lparr>m_snake_positions := step_pos d h # h # cs, m_field := f'\<rparr>) \<and>
           (\<forall>q. cell_at f' q =
              (if q \<in> set (h # cs) then SNAKE_BODY
               else if q = step_pos d h then SNAKE_HEAD
               else cell_at (m_field g) q))"
proof -
  let ?g1 = "g\<lparr>m_snake_positions := step_pos d h # m_snake_positions g\<rparr>"
  have "m_snake_positions ?g1 = step_pos d h # h # cs"
    and "list_all in_field (step_pos d h # h # cs)"
    using assms by simp_all
  from snake_update_field_in_field [OF this] obtain f' where
    upd: "snake_update_field ?g1 = Inr (?g1\<lparr>m_field := f'\<rparr>)" and
    cells: "\<forall>q. cell_at f' q =
              (if q \<in> set (h # cs) then SNAKE_BODY
               else if q = step_pos d h then SNAKE_HEAD
               else cell_at (m_field ?g1) q)"
    by blast
  have "\<not> at_edge d h"
    using assms in_field_step_pos [of h d] by simp
  then have "lengthen_snake d g = Inr (?g1\<lparr>m_field := f'\<rparr>)"
    using assms upd by (simp add: lengthen_snake_unfold is_space_for_snake_cell)
  with cells assms(1) show ?thesis
    by auto
qed

lemma lengthen_snake_Inr:
  assumes "m_snake_positions g = h # cs" and "in_field h" and "lengthen_snake d g = Inr g'"
  shows "in_field (step_pos d h) \<and>
         (cell_at (m_field g) (step_pos d h) = EMPTY \<or> cell_at (m_field g) (step_pos d h) = FRUIT)"
  using assms in_field_step_pos [of h d]
  by (auto simp: lengthen_snake_unfold is_space_for_snake_cell split: if_splits)

lemma linked_butlast: "linked xs \<Longrightarrow> linked (butlast xs)"
  by (induction xs rule: linked.induct) (auto split: if_splits)

lemma snake_inv_cells:
  assumes "snake_inv g" and "grid_agree g" and "p \<in> set (m_snake_positions g)"
  shows "in_field p \<and> (cell_at (m_field g) p = SNAKE_HEAD \<or> cell_at (m_field g) p = SNAKE_BODY)"
proof -
  from assms(1,3) have inf: "in_field p"
    by (simp add: snake_inv_def list_all_iff)
  from assms(2) obtain h cs where "m_snake_positions g = h # cs" and
    "\<forall>p. in_field p \<longrightarrow>
           (if p = h then cell_at (m_field g) p = SNAKE_HEAD
            else if p \<in> set cs then cell_at (m_field g) p = SNAKE_BODY
            else cell_at (m_field g) p = EMPTY \<or> cell_at (m_field g) p = FRUIT)"
    unfolding grid_agree_iff by blast
  with inf assms(3) show ?thesis
    by (metis set_ConsD)
qed

section \<open>Growth and movement keep the invariants\<close>

text \<open>Growth keeps the invariants; the fruit's cell, when it is the one entered, is overwritten.\<close>

lemma lengthen_snake_inv:
  assumes inv: "snake_inv g" "grid_agree g" "fruit_inv g"
    and step: "lengthen_snake d g = Inr g'"
  shows "snake_inv g'" and "grid_agree g'" and "fruit_inv g'"
    and "m_snake_positions g' = step_pos d (hd (m_snake_positions g)) # m_snake_positions g"
    and "m_position g' = m_position g" and "m_game_running g' = m_game_running g"
    and "m_direction g' = m_direction g" and "m_score g' = m_score g"
    and "cell_at (m_field g) (step_pos d (hd (m_snake_positions g))) = FRUIT \<Longrightarrow>
           in_field q \<Longrightarrow> cell_at (m_field g') q \<noteq> FRUIT"
proof -
  from inv(2) obtain h cs where snake: "m_snake_positions g = h # cs" and
    agree: "\<forall>p. in_field p \<longrightarrow>
           (if p = h then cell_at (m_field g) p = SNAKE_HEAD
            else if p \<in> set cs then cell_at (m_field g) p = SNAKE_BODY
            else cell_at (m_field g) p = EMPTY \<or> cell_at (m_field g) p = FRUIT)"
    unfolding grid_agree_iff by blast
  let ?c = "step_pos d h"
  from inv(1) snake have all_in: "list_all in_field (h # cs)" and dist: "distinct (h # cs)"
    and link: "linked (h # cs)"
    by (simp_all add: snake_inv_def)
  then have "in_field h" by simp
  from lengthen_snake_Inr [OF snake this step] have c_in: "in_field ?c"
    and c_free: "cell_at (m_field g) ?c = EMPTY \<or> cell_at (m_field g) ?c = FRUIT"
    by simp_all
  from lengthen_snake_free [OF snake all_in c_in c_free] obtain f' where
    eq: "lengthen_snake d g = Inr (g\<lparr>m_snake_positions := ?c # h # cs, m_field := f'\<rparr>)" and
    cells0: "\<forall>q. cell_at f' q =
              (if q \<in> set (h # cs) then SNAKE_BODY
               else if q = ?c then SNAKE_HEAD
               else cell_at (m_field g) q)"
    by blast
  from eq step have g': "g' = g\<lparr>m_snake_positions := ?c # h # cs, m_field := f'\<rparr>"
    by simp
  from cells0 have cells: "cell_at f' q =
              (if q \<in> set (h # cs) then SNAKE_BODY
               else if q = ?c then SNAKE_HEAD
               else cell_at (m_field g) q)" for q
    by blast
  have c_new: "?c \<notin> set (h # cs)"
    using snake_inv_cells [OF inv(1,2), of ?c] c_free snake by auto
  show "snake_inv g'"
    using g' all_in dist link c_in c_new adjacent_step_pos [of d h]
    by (simp add: snake_inv_def)
  show "grid_agree g'"
    unfolding grid_agree_iff
  proof (intro exI conjI allI impI)
    show "m_snake_positions g' = ?c # h # cs"
      using g' by simp
    fix p assume "in_field p"
    with agree have "if p = h then cell_at (m_field g) p = SNAKE_HEAD
            else if p \<in> set cs then cell_at (m_field g) p = SNAKE_BODY
            else cell_at (m_field g) p = EMPTY \<or> cell_at (m_field g) p = FRUIT"
      by blast
    moreover have "m_field g' = f'"
      using g' by simp
    ultimately show "if p = ?c then cell_at (m_field g') p = SNAKE_HEAD
          else if p \<in> set (h # cs) then cell_at (m_field g') p = SNAKE_BODY
          else cell_at (m_field g') p = EMPTY \<or> cell_at (m_field g') p = FRUIT"
      using c_new by (simp add: cells split: if_splits)
  qed
  have f'_fruit: "cell_at (m_field g) p = FRUIT \<and> p \<noteq> ?c" if "cell_at f' p = FRUIT" for p
    using that by (simp add: cells split: if_splits)
  show "fruit_inv g'"
    unfolding fruit_inv_iff
  proof (intro allI impI)
    fix p assume "in_field p" and "cell_at (m_field g') p = FRUIT"
    then have "cell_at (m_field g) p = FRUIT"
      using f'_fruit [of p] g' by simp
    with \<open>in_field p\<close> inv(3) show "p = m_position g'"
      unfolding fruit_inv_iff using g' by simp
  qed
  show "m_snake_positions g' = step_pos d (hd (m_snake_positions g)) # m_snake_positions g"
    using g' snake by simp
  show "m_position g' = m_position g" "m_game_running g' = m_game_running g"
    "m_direction g' = m_direction g" "m_score g' = m_score g"
    using g' by simp_all
  show "cell_at (m_field g') q \<noteq> FRUIT"
    if "cell_at (m_field g) (step_pos d (hd (m_snake_positions g))) = FRUIT" and "in_field q"
  proof
    assume "cell_at (m_field g') q = FRUIT"
    then have q: "cell_at (m_field g) q = FRUIT" "q \<noteq> ?c"
      using g' f'_fruit [of q] by simp_all
    from that snake c_in have "?c = m_position g"
      using inv(3) unfolding fruit_inv_iff by simp
    moreover from q(1) that(2) have "q = m_position g"
      using inv(3) unfolding fruit_inv_iff by simp
    ultimately show False
      using q(2) by simp
  qed
qed

text \<open>Removing the tail of a snake of at least two cells.\<close>

lemma pop_back_snake_body_inv:
  assumes inv: "snake_inv g" "grid_agree g" "fruit_inv g"
    and len: "2 \<le> length (m_snake_positions g)"
  shows "\<exists>g'. pop_back_snake_body g = Inr g' \<and> snake_inv g' \<and> grid_agree g' \<and> fruit_inv g' \<and>
           m_snake_positions g' = butlast (m_snake_positions g) \<and>
           m_position g' = m_position g \<and> m_game_running g' = m_game_running g \<and>
           m_direction g' = m_direction g \<and> m_score g' = m_score g"
proof -
  from inv(2) obtain h cs where snake: "m_snake_positions g = h # cs" and
    agree: "\<forall>p. in_field p \<longrightarrow>
           (if p = h then cell_at (m_field g) p = SNAKE_HEAD
            else if p \<in> set cs then cell_at (m_field g) p = SNAKE_BODY
            else cell_at (m_field g) p = EMPTY \<or> cell_at (m_field g) p = FRUIT)"
    unfolding grid_agree_iff by blast
  from len snake have cs: "cs \<noteq> []" by auto
  let ?t = "last (h # cs)"
  from inv(1) snake have all_in: "list_all in_field (h # cs)" and dist: "distinct (h # cs)"
    and link: "linked (h # cs)"
    by (simp_all add: snake_inv_def)
  have t_in: "in_field ?t"
    using all_in by (metis last_in_set list.distinct(1) list_all_iff)
  then obtain f' where put: "field_put (m_field g) (pos_i ?t) (pos_j ?t) EMPTY = Inr f'"
    using field_put_in_field by blast
  let ?g' = "g\<lparr>m_field := f', m_snake_positions := butlast (h # cs)\<rparr>"
  have pop: "pop_back_snake_body g = Inr ?g'"
    using snake put by (simp add: pop_back_snake_body_def)
  have cells: "cell_at f' q = (if q = ?t then EMPTY else cell_at (m_field g) q)" for q
    using field_put_cell [OF put] by simp
  have bl: "butlast (h # cs) = h # butlast cs"
    using cs by simp
  from cs have app: "butlast cs @ [last cs] = cs"
    by simp
  have "distinct (butlast cs @ [last cs])"
    unfolding app using dist by simp
  then have t_old: "last cs \<notin> set (butlast cs)"
    by simp
  have set_cs: "set cs = insert (last cs) (set (butlast cs))"
    using arg_cong [OF app, of set] by simp
  have t_cs: "?t = last cs" "last cs \<in> set cs" "last cs \<noteq> h"
    using cs dist by auto
  have "list_all in_field (butlast (h # cs))"
    using all_in unfolding list_all_iff by (blast dest: in_set_butlastD)
  moreover have "1 \<le> length (butlast (h # cs))"
    unfolding bl by simp
  ultimately have "snake_inv ?g'"
    using distinct_butlast [OF dist] linked_butlast [OF link]
    by (simp add: snake_inv_def del: butlast.simps)
  moreover have "grid_agree ?g'"
    unfolding grid_agree_iff
  proof (intro exI conjI allI impI)
    show "m_snake_positions ?g' = h # butlast cs"
      using bl by simp
    fix p assume "in_field p"
    with agree have p: "if p = h then cell_at (m_field g) p = SNAKE_HEAD
            else if p \<in> set cs then cell_at (m_field g) p = SNAKE_BODY
            else cell_at (m_field g) p = EMPTY \<or> cell_at (m_field g) p = FRUIT"
      by blast
    show "if p = h then cell_at (m_field ?g') p = SNAKE_HEAD
          else if p \<in> set (butlast cs) then cell_at (m_field ?g') p = SNAKE_BODY
          else cell_at (m_field ?g') p = EMPTY \<or> cell_at (m_field ?g') p = FRUIT"
    proof (cases "p = last cs")
      case True
      then show ?thesis using t_cs t_old cells [of p] by (simp split: if_splits)
    next
      case False
      have "p \<in> set cs \<longleftrightarrow> p \<in> set (butlast cs)"
        using False set_cs by simp
      with False p t_cs cells [of p] show ?thesis by (simp split: if_splits)
    qed
  qed
  moreover have "fruit_inv ?g'"
    using inv(3) cells unfolding fruit_inv_iff by (auto split: if_splits)
  ultimately show ?thesis
    using pop snake by simp
qed

section \<open>Movement, and the fruit generator\<close>

lemma move_snake_inv:
  assumes inv: "snake_inv g" "grid_agree g" "fruit_inv g"
    and step: "move_snake d g = Inr g'"
  shows "snake_inv g' \<and> grid_agree g' \<and> fruit_inv g' \<and>
         m_snake_positions g' =
           butlast (step_pos d (hd (m_snake_positions g)) # m_snake_positions g) \<and>
         m_position g' = m_position g \<and> m_game_running g' = m_game_running g \<and>
         m_direction g' = m_direction g \<and> m_score g' = m_score g"
proof -
  from step obtain g1 where l: "lengthen_snake d g = Inr g1" and p: "pop_back_snake_body g1 = Inr g'"
    by (auto simp: move_snake_unfold split: sum.splits)
  note g1 = lengthen_snake_inv [OF inv l]
  have "2 \<le> length (m_snake_positions g1)"
    using g1(4) inv(1) by (simp add: snake_inv_def)
  from pop_back_snake_body_inv [OF g1(1,2,3) this] p show ?thesis
    using g1(4-8) by auto
qed

lemma move_snake_blocked_iff:
  "move_snake d g = Inl BlockedMove \<longleftrightarrow> lengthen_snake d g = Inl BlockedMove"
  by (auto simp: move_snake_unfold pop_back_snake_body_def field_put_not_blocked Let_def
      split: sum.splits list.splits)

text \<open>The resampling loop: what it returns when it returns, and when it returns.\<close>

lemma resample_Some:
  "resample f dist k pos = Some r \<Longrightarrow>
     (\<forall>p. r = Inr p \<longrightarrow> in_field p \<and> cell_at f p = EMPTY \<and>
        (p = pos \<or> (\<exists>n. p = \<lparr>pos_i = dist (k + 2 * n), pos_j = dist (k + 2 * n + 1)\<rparr>)))"
proof (induction f dist k pos r rule: resample.raw_induct [rotated 1, consumes 1, case_names step])
  case (step rs f dist k pos r)
  show ?case
  proof (intro allI impI)
    fix p assume r: "r = Inr p"
    show "in_field p \<and> cell_at f p = EMPTY \<and>
        (p = pos \<or> (\<exists>n. p = \<lparr>pos_i = dist (k + 2 * n), pos_j = dist (k + 2 * n + 1)\<rparr>))"
    proof (cases "in_field pos \<and> cell_at f pos \<noteq> EMPTY")
      case True
      with step(2) r have "rs f dist (k + 2) \<lparr>pos_i = dist k, pos_j = dist (k + 1)\<rparr> = Some (Inr p)"
        by (simp add: field_get_cell)
      from step(1) [OF this] have "in_field p \<and> cell_at f p = EMPTY" and
        "p = \<lparr>pos_i = dist k, pos_j = dist (k + 1)\<rparr> \<or>
         (\<exists>n. p = \<lparr>pos_i = dist (k + 2 + 2 * n), pos_j = dist (k + 2 + 2 * n + 1)\<rparr>)"
        by simp_all
      moreover have "\<exists>n. p = \<lparr>pos_i = dist (k + 2 * n), pos_j = dist (k + 2 * n + 1)\<rparr>"
        if "p = \<lparr>pos_i = dist k, pos_j = dist (k + 1)\<rparr>"
        using that by (intro exI [of _ 0]) simp
      moreover have "\<exists>n. p = \<lparr>pos_i = dist (k + 2 * n), pos_j = dist (k + 2 * n + 1)\<rparr>"
        if "p = \<lparr>pos_i = dist (k + 2 + 2 * n), pos_j = dist (k + 2 + 2 * n + 1)\<rparr>" for n
        using that by (intro exI [of _ "Suc n"]) (simp add: add.assoc)
      ultimately show ?thesis by blast
    next
      case False
      with step(2) r show ?thesis
        by (auto simp: field_get_cell split: if_splits)
    qed
  qed
qed


lemma resample_Inl:
  "resample f dist k pos = Some r \<Longrightarrow>
     (\<forall>e. r = Inl e \<longrightarrow>
        \<not> in_field pos \<or>
        (\<exists>n. \<not> in_field \<lparr>pos_i = dist (k + 2 * n), pos_j = dist (k + 2 * n + 1)\<rparr>))"
proof (induction f dist k pos r rule: resample.raw_induct [rotated 1, consumes 1, case_names step])
  case (step rs f dist k pos r)
  show ?case
  proof (intro allI impI)
    fix e assume r: "r = Inl e"
    show "\<not> in_field pos \<or>
        (\<exists>n. \<not> in_field \<lparr>pos_i = dist (k + 2 * n), pos_j = dist (k + 2 * n + 1)\<rparr>)"
    proof (cases "in_field pos")
      case False
      then show ?thesis by simp
    next
      case True
      with step(2) r have "rs f dist (k + 2) \<lparr>pos_i = dist k, pos_j = dist (k + 1)\<rparr> = Some (Inl e)"
        by (simp add: field_get_cell split: if_splits)
      from step(1) [OF this] have
        "\<not> in_field \<lparr>pos_i = dist k, pos_j = dist (k + 1)\<rparr> \<or>
         (\<exists>n. \<not> in_field \<lparr>pos_i = dist (k + 2 + 2 * n), pos_j = dist (k + 2 + 2 * n + 1)\<rparr>)"
        by simp
      moreover have "\<exists>n. \<not> in_field \<lparr>pos_i = dist (k + 2 * n), pos_j = dist (k + 2 * n + 1)\<rparr>"
        if "\<not> in_field \<lparr>pos_i = dist k, pos_j = dist (k + 1)\<rparr>"
        using that by (intro exI [of _ 0]) simp
      moreover have "\<exists>n. \<not> in_field \<lparr>pos_i = dist (k + 2 * n), pos_j = dist (k + 2 * n + 1)\<rparr>"
        if "\<not> in_field \<lparr>pos_i = dist (k + 2 + 2 * n), pos_j = dist (k + 2 + 2 * n + 1)\<rparr>" for n
        using that by (intro exI [of _ "Suc n"]) (simp add: add.assoc)
      ultimately show ?thesis by blast
    qed
  qed
qed

lemma in_field_drawn:
  assumes "dist_in_range dist"
  shows "in_field (drawn dist n)"
proof -
  from assms have "0 \<le> dist k \<and> dist k \<le> 9" for k
    by (simp add: dist_in_range_def field_height_def)
  from this [of "2 * n"] this [of "2 * n + 1"] show ?thesis
    by (simp add: drawn_def in_field_def in_array_def field_width_def field_height_def)
qed

lemma gen_new_position_drawn: "gen_new_position f dist = resample f dist (2 * Suc 0) (drawn dist 0)"
  by (simp add: gen_new_position_def drawn_def)

lemma resample_next:
  "in_field pos \<Longrightarrow> cell_at f pos \<noteq> EMPTY \<Longrightarrow>
     resample f dist k pos = resample f dist (k + 2) \<lparr>pos_i = dist k, pos_j = dist (k + 1)\<rparr>"
  by (subst resample.simps) (simp add: field_get_cell)

lemma resample_stop:
  "in_field pos \<Longrightarrow> cell_at f pos = EMPTY \<Longrightarrow> resample f dist k pos = Some (Inr pos)"
  by (subst resample.simps) (simp add: field_get_cell)

lemma drawn_shift:
  "\<lparr>pos_i = dist (2 * Suc m + 2 * n), pos_j = dist (2 * Suc m + 2 * n + 1)\<rparr> =
     drawn dist (Suc (m + n))"
  by (simp add: drawn_def)

text \<open>The loop returns the first drawn position whose cell is \<open>EMPTY\<close>.\<close>

lemma resample_first_hit:
  assumes "\<forall>j. in_field (drawn dist j)"
    and "cell_at f (drawn dist n) = EMPTY"
    and "\<forall>j. m \<le> j \<and> j < n \<longrightarrow> cell_at f (drawn dist j) \<noteq> EMPTY"
    and "m \<le> n"
  shows "resample f dist (2 * Suc m) (drawn dist m) = Some (Inr (drawn dist n))"
  using assms(3,4)
proof (induction "n - m" arbitrary: m)
  case 0
  then have "m = n" by simp
  with assms(1,2) show ?case
    using resample_stop [of "drawn dist n" f dist "2 * Suc n"] by simp
next
  case (Suc d)
  then have "m < n" and "d = n - Suc m" and "Suc m \<le> n"
    by simp_all
  moreover have "\<forall>j. Suc m \<le> j \<and> j < n \<longrightarrow> cell_at f (drawn dist j) \<noteq> EMPTY"
    using Suc.prems(1) by simp
  ultimately have IH: "resample f dist (2 * Suc (Suc m)) (drawn dist (Suc m)) = Some (Inr (drawn dist n))"
    using Suc.hyps(1) by blast
  have "cell_at f (drawn dist m) \<noteq> EMPTY"
    using Suc.prems(1) \<open>m < n\<close> by simp
  with assms(1) have "resample f dist (2 * Suc m) (drawn dist m) =
      resample f dist (2 * Suc m + 2) \<lparr>pos_i = dist (2 * Suc m), pos_j = dist (2 * Suc m + 1)\<rparr>"
    using resample_next [of "drawn dist m" f dist "2 * Suc m"] by blast
  also have "\<lparr>pos_i = dist (2 * Suc m), pos_j = dist (2 * Suc m + 1)\<rparr> = drawn dist (Suc m)"
    by (simp add: drawn_def)
  also have "2 * Suc m + 2 = 2 * Suc (Suc m)"
    by simp
  finally show ?case
    using IH by simp
qed

text \<open>The loop never returns when no drawn position has an \<open>EMPTY\<close> cell.\<close>

lemma resample_never:
  assumes "\<forall>j. in_field (drawn dist j)"
    and "\<forall>j. cell_at f (drawn dist j) \<noteq> EMPTY"
  shows "resample f dist (2 * Suc m) (drawn dist m) = None"
proof (rule ccontr)
  assume "resample f dist (2 * Suc m) (drawn dist m) \<noteq> None"
  then obtain r where r: "resample f dist (2 * Suc m) (drawn dist m) = Some r"
    by auto
  show False
  proof (cases r)
    case (Inl e)
    with resample_Inl [OF r] assms(1) show False
      unfolding drawn_shift by blast
  next
    case (Inr p)
    with resample_Some [OF r] assms(2) show False
      unfolding drawn_shift by blast
  qed
qed

section \<open>Placing the fruit, and one logic update\<close>

lemma fruit_update_field_cell:
  "fruit_update_field g = Inr g' \<Longrightarrow>
     in_field (m_position g) \<and> g' = g\<lparr>m_field := m_field g'\<rparr> \<and>
     cell_at (m_field g') q = (if q = m_position g then FRUIT else cell_at (m_field g) q)"
proof -
  assume "fruit_update_field g = Inr g'"
  then obtain f' where put: "field_put (m_field g) (pos_i (m_position g)) (pos_j (m_position g)) FRUIT = Inr f'"
    and g': "g' = g\<lparr>m_field := f'\<rparr>"
    by (auto simp: fruit_update_field_def split: sum.splits)
  from field_put_cell [OF put, of q] g' show ?thesis
    by simp
qed

lemma new_position_Some:
  assumes "new_position dist g = Some (Inr g')"
  shows "in_field (m_position g')" and "cell_at (m_field g) (m_position g') = EMPTY"
    and "cell_at (m_field g') q = (if q = m_position g' then FRUIT else cell_at (m_field g) q)"
    and "g' = g\<lparr>m_position := m_position g', m_field := m_field g'\<rparr>"
proof -
  from assms obtain pos where gen: "gen_new_position (m_field g) dist = Some (Inr pos)"
    and upd: "fruit_update_field (g\<lparr>m_position := pos\<rparr>) = Inr g'"
    by (auto simp: new_position_def split: option.splits sum.splits)
  from fruit_update_field_cell [OF upd, of q]
  have g': "g' = g\<lparr>m_position := pos, m_field := m_field g'\<rparr>" and
    cells: "cell_at (m_field g') q = (if q = pos then FRUIT else cell_at (m_field g) q)"
    by simp_all
  from g' have pos: "m_position g' = pos"
    by (metis game_logic_t.select_convs(3) game_logic_t.surjective game_logic_t.update_convs(1)
        game_logic_t.update_convs(3))
  from resample_Some [OF gen [unfolded gen_new_position_def]]
  have "in_field pos \<and> cell_at (m_field g) pos = EMPTY"
    by simp
  with pos cells g' show "in_field (m_position g')" "cell_at (m_field g) (m_position g') = EMPTY"
    "cell_at (m_field g') q = (if q = m_position g' then FRUIT else cell_at (m_field g) q)"
    "g' = g\<lparr>m_position := m_position g', m_field := m_field g'\<rparr>"
    by simp_all
qed

lemma new_position_inv:
  assumes "snake_inv g" and "grid_agree g"
    and nofruit: "\<forall>q. in_field q \<longrightarrow> cell_at (m_field g) q \<noteq> FRUIT"
    and new: "new_position dist g = Some (Inr g')"
  shows "snake_inv g'" and "grid_agree g'" and "fruit_inv g'"
    and "m_snake_positions g' = m_snake_positions g"
    and "m_game_running g' = m_game_running g" and "m_direction g' = m_direction g"
    and "m_score g' = m_score g"
proof -
  note np = new_position_Some [OF new]
  have fields: "m_snake_positions g' = m_snake_positions g" "m_game_running g' = m_game_running g"
    "m_direction g' = m_direction g" "m_score g' = m_score g"
    by (subst np(4), simp)+
  then show "m_snake_positions g' = m_snake_positions g"
    "m_game_running g' = m_game_running g" "m_direction g' = m_direction g"
    "m_score g' = m_score g"
    by simp_all
  show "snake_inv g'"
    using assms(1) fields by (simp add: snake_inv_def)
  have off: "m_position g' \<notin> set (m_snake_positions g)"
    using snake_inv_cells [OF assms(1,2), of "m_position g'"] np(2) by auto
  from assms(2) obtain h cs where snake: "m_snake_positions g = h # cs" and
    agree: "\<forall>p. in_field p \<longrightarrow>
           (if p = h then cell_at (m_field g) p = SNAKE_HEAD
            else if p \<in> set cs then cell_at (m_field g) p = SNAKE_BODY
            else cell_at (m_field g) p = EMPTY \<or> cell_at (m_field g) p = FRUIT)"
    unfolding grid_agree_iff by blast
  show "grid_agree g'"
    unfolding grid_agree_iff
  proof (intro exI conjI allI impI)
    show "m_snake_positions g' = h # cs"
      using fields snake by simp
    fix p assume "in_field p"
    with agree have "if p = h then cell_at (m_field g) p = SNAKE_HEAD
            else if p \<in> set cs then cell_at (m_field g) p = SNAKE_BODY
            else cell_at (m_field g) p = EMPTY \<or> cell_at (m_field g) p = FRUIT"
      by blast
    then show "if p = h then cell_at (m_field g') p = SNAKE_HEAD
          else if p \<in> set cs then cell_at (m_field g') p = SNAKE_BODY
          else cell_at (m_field g') p = EMPTY \<or> cell_at (m_field g') p = FRUIT"
      using off snake np(3) [of p] by (simp split: if_splits)
  qed
  show "fruit_inv g'"
    unfolding fruit_inv_iff
  proof (intro allI impI)
    fix p assume "in_field p" and "cell_at (m_field g') p = FRUIT"
    with nofruit np(3) [of p] show "p = m_position g'"
      by (metis (full_types))
  qed
qed

lemma snake_new_initial:
  "\<exists>f'. snake_new \<lparr>m_field = game_field_new, m_snake_positions = [],
              m_position = fp, m_game_running = True, m_score = 0, m_direction = UP\<rparr> =
        Inr \<lparr>m_field = f', m_snake_positions = [\<lparr>pos_i = 4, pos_j = 4\<rparr>],
              m_position = fp, m_game_running = True, m_score = 0, m_direction = UP\<rparr> \<and>
        (\<forall>q. cell_at f' q = (if q = \<lparr>pos_i = 4, pos_j = 4\<rparr> then SNAKE_HEAD else EMPTY))"
proof -
  let ?g = "\<lparr>m_field = game_field_new, m_snake_positions = [\<lparr>pos_i = 4, pos_j = 4\<rparr>],
              m_position = fp, m_game_running = True, m_score = 0, m_direction = UP\<rparr>"
  have "m_snake_positions ?g = \<lparr>pos_i = 4, pos_j = 4\<rparr> # []"
    and "list_all in_field (\<lparr>pos_i = 4, pos_j = 4\<rparr> # [])"
    by (simp_all add: in_field_def in_array_def field_width_def field_height_def)
  from snake_update_field_in_field [OF this] obtain f' where
    upd: "snake_update_field ?g = Inr (?g\<lparr>m_field := f'\<rparr>)" and
    cells: "\<forall>q. cell_at f' q =
              (if q \<in> set [] then SNAKE_BODY else if q = \<lparr>pos_i = 4, pos_j = 4\<rparr> then SNAKE_HEAD
               else cell_at (m_field ?g) q)"
    by blast
  have "cell_at game_field_new q = EMPTY" for q
    by (simp add: cell_at_def game_field_new_def)
  with cells have "\<forall>q. cell_at f' q = (if q = \<lparr>pos_i = 4, pos_j = 4\<rparr> then SNAKE_HEAD else EMPTY)"
    by simp
  with upd show ?thesis
    by (intro exI [of _ f']) (simp add: snake_new_def field_width_def field_height_def)
qed

text \<open>The state after construction.\<close>

lemma game_new_inv:
  assumes "game_new dist = Some (Inr g)"
  shows "game_inv g" and "m_snake_positions g = [\<lparr>pos_i = 4, pos_j = 4\<rparr>]"
    and "m_game_running g" and "m_direction g = UP" and "m_score g = 0"
    and "in_field (m_position g)" and "cell_at (m_field g) (m_position g) = FRUIT"
proof -
  let ?fp = "\<lparr>pos_i = 0, pos_j = 0\<rparr>"
  from snake_new_initial [of ?fp] obtain f1 where
    sn: "snake_new \<lparr>m_field = game_field_new, m_snake_positions = [],
              m_position = ?fp, m_game_running = True, m_score = 0, m_direction = UP\<rparr> =
        Inr \<lparr>m_field = f1, m_snake_positions = [\<lparr>pos_i = 4, pos_j = 4\<rparr>],
              m_position = ?fp, m_game_running = True, m_score = 0, m_direction = UP\<rparr>" and
    cells: "\<forall>q. cell_at f1 q = (if q = \<lparr>pos_i = 4, pos_j = 4\<rparr> then SNAKE_HEAD else EMPTY)"
    by blast
  let ?g1 = "\<lparr>m_field = f1, m_snake_positions = [\<lparr>pos_i = 4, pos_j = 4\<rparr>],
              m_position = ?fp, m_game_running = True, m_score = 0, m_direction = UP\<rparr>"
  from assms sn have new: "new_position dist ?g1 = Some (Inr g)"
    by (simp add: game_new_def)
  have s1: "snake_inv ?g1"
    by (simp add: snake_inv_def in_field_def in_array_def field_width_def field_height_def)
  have a1: "grid_agree ?g1"
    unfolding grid_agree_iff using cells by simp
  have n1: "\<forall>q. in_field q \<longrightarrow> cell_at (m_field ?g1) q \<noteq> FRUIT"
    using cells by simp
  note inv = new_position_inv [OF s1 a1 n1 new]
  show "game_inv g"
    using inv(1-3) by (simp add: game_inv_def)
  show "m_snake_positions g = [\<lparr>pos_i = 4, pos_j = 4\<rparr>]" "m_game_running g"
    "m_direction g = UP" "m_score g = 0"
    using inv(4-7) by simp_all
  show "in_field (m_position g)" "cell_at (m_field g) (m_position g) = FRUIT"
    using new_position_Some(1) [OF new] new_position_Some(3) [OF new, of "m_position g"]
    by simp_all
qed

lemma is_fruit_in_direction_cell:
  "is_fruit_in_direction g =
     (case m_snake_positions g of
        [] \<Rightarrow> Inl Undefined
      | h # _ \<Rightarrow>
          if in_field (step_pos (m_direction g) h)
          then Inr (cell_at (m_field g) (step_pos (m_direction g) h) = FRUIT)
          else Inl Undefined)"
proof -
  have "(case m_direction g of
           UP \<Rightarrow> h\<lparr>pos_i := pos_i h - 1\<rparr>
         | DOWN \<Rightarrow> h\<lparr>pos_i := pos_i h + 1\<rparr>
         | LEFT \<Rightarrow> h\<lparr>pos_j := pos_j h - 1\<rparr>
         | RIGHT \<Rightarrow> h\<lparr>pos_j := pos_j h + 1\<rparr>) = step_pos (m_direction g) h" for h
    by (cases "m_direction g") (simp_all add: step_pos_def pos_eq_iff)
  then show ?thesis
    by (simp add: is_fruit_in_direction_def field_get_cell split: list.splits)
qed

lemma handle_movement_unfold:
  "handle_movement dist g =
     (case is_fruit_in_direction g of
        Inl e \<Rightarrow> Some (Inl e)
      | Inr fruit \<Rightarrow>
          try_step fruit (lengthen_snake (m_direction g)) (move_snake (m_direction g)) dist g)"
  by (cases "m_direction g"; cases "is_fruit_in_direction g")
     (simp_all add: handle_movement_def lengthen_snake_def move_snake_def)

lemma handle_key_fields:
  "m_field (handle_key key g) = m_field g"
  "m_snake_positions (handle_key key g) = m_snake_positions g"
  "m_position (handle_key key g) = m_position g"
  "m_score (handle_key key g) = m_score g"
  by (cases key; simp add: handle_key_def)+

lemma handle_key_inv: "game_inv (handle_key key g) = game_inv g"
  by (simp add: game_inv_def snake_inv_def grid_agree_iff fruit_inv_iff handle_key_fields)

lemma flag_inv: "game_inv (g\<lparr>m_game_running := b\<rparr>) = game_inv g"
  by (simp add: game_inv_def snake_inv_def grid_agree_iff fruit_inv_iff)

text \<open>One movement step keeps the invariants, and it never changes the heading.\<close>

lemma handle_movement_inv:
  assumes inv: "game_inv g" and step: "handle_movement dist g = Some (Inr g')"
  shows "game_inv g'" and "m_direction g' = m_direction g"
    and "m_game_running g' \<longrightarrow> m_game_running g"
proof -
  from inv have i: "snake_inv g" "grid_agree g" "fruit_inv g"
    by (simp_all add: game_inv_def)
  from step obtain fruit where probe: "is_fruit_in_direction g = Inr fruit" and
    t: "try_step fruit (lengthen_snake (m_direction g)) (move_snake (m_direction g)) dist g
          = Some (Inr g')"
    by (auto simp: handle_movement_unfold split: sum.splits)
  let ?d = "m_direction g"
  have "game_inv g' \<and> m_direction g' = m_direction g \<and> (m_game_running g' \<longrightarrow> m_game_running g)"
  proof (cases fruit)
    case True
    show ?thesis
    proof (cases "lengthen_snake ?d g")
      case (Inl e)
      with t True have "g' = g\<lparr>m_game_running := False\<rparr>"
        by (cases e) (simp_all add: try_step_def)
      then show ?thesis using inv by (simp add: flag_inv)
    next
      case (Inr g1)
      with t True have new: "new_position dist g1 = Some (Inr g')"
        by (simp add: try_step_def)
      note l = lengthen_snake_inv [OF i Inr]
      from probe True have "cell_at (m_field g) (step_pos ?d (hd (m_snake_positions g))) = FRUIT"
        by (auto simp: is_fruit_in_direction_cell split: list.splits if_splits)
      with l(9) have "\<forall>q. in_field q \<longrightarrow> cell_at (m_field g1) q \<noteq> FRUIT"
        by blast
      from new_position_inv [OF l(1,2) this new] l(6,7) show ?thesis
        by (simp add: game_inv_def)
    qed
  next
    case False
    show ?thesis
    proof (cases "move_snake ?d g")
      case (Inl e)
      with t False have "g' = g\<lparr>m_game_running := False\<rparr>"
        by (cases e) (simp_all add: try_step_def)
      then show ?thesis using inv by (simp add: flag_inv)
    next
      case (Inr g1)
      with t False have "g' = g1"
        by (simp add: try_step_def)
      with move_snake_inv [OF i Inr] show ?thesis
        by (simp add: game_inv_def)
    qed
  qed
  then show "game_inv g'" "m_direction g' = m_direction g"
    "m_game_running g' \<longrightarrow> m_game_running g"
    by simp_all
qed

lemma tick_inv: "game_inv g \<Longrightarrow> tick key dist g = Some (Inr g') \<Longrightarrow> game_inv g'"
  unfolding tick_def by (rule handle_movement_inv(1) [of "handle_key key g"]) (simp_all add: handle_key_inv)

lemma reachable_inv: "reachable g \<Longrightarrow> game_inv g"
  by (induction rule: reachable.induct) (auto intro: game_new_inv(1) tick_inv)

section \<open>What the operations leave alone\<close>

lemma snake_update_field_frame:
  "snake_update_field g = Inr g' \<Longrightarrow> g' = g\<lparr>m_field := m_field g'\<rparr>"
  by (auto simp: snake_update_field_def split: list.splits sum.splits)

lemma lengthen_snake_frame:
  assumes "lengthen_snake d g = Inr g'"
  shows "g' = g\<lparr>m_field := m_field g', m_snake_positions := m_snake_positions g'\<rparr>"
    and "m_snake_positions g' = step_pos d (hd (m_snake_positions g)) # m_snake_positions g"
proof -
  from assms obtain h cs where snake: "m_snake_positions g = h # cs" and
    upd: "snake_update_field (g\<lparr>m_snake_positions := step_pos d h # m_snake_positions g\<rparr>) = Inr g'"
    by (auto simp: lengthen_snake_unfold split: list.splits if_splits sum.splits)
  from snake_update_field_frame [OF upd]
  have g': "g' = g\<lparr>m_snake_positions := step_pos d h # m_snake_positions g, m_field := m_field g'\<rparr>"
    by simp
  have "m_snake_positions g' = step_pos d h # m_snake_positions g"
    by (subst g') simp
  with snake show "m_snake_positions g' = step_pos d (hd (m_snake_positions g)) # m_snake_positions g"
    by simp
  show "g' = g\<lparr>m_field := m_field g', m_snake_positions := m_snake_positions g'\<rparr>"
    by (subst (2) g', subst g') simp
qed

lemma pop_back_snake_body_frame:
  assumes "pop_back_snake_body g = Inr g'"
  shows "g' = g\<lparr>m_field := m_field g', m_snake_positions := m_snake_positions g'\<rparr>"
    and "m_snake_positions g' = butlast (m_snake_positions g)"
  using assms
  by (auto simp: pop_back_snake_body_def Let_def split: list.splits sum.splits)

lemma move_snake_frame:
  assumes "move_snake d g = Inr g'"
  shows "g' = g\<lparr>m_field := m_field g', m_snake_positions := m_snake_positions g'\<rparr>"
    and "m_snake_positions g' =
           butlast (step_pos d (hd (m_snake_positions g)) # m_snake_positions g)"
proof -
  from assms obtain g1 where l: "lengthen_snake d g = Inr g1" and p: "pop_back_snake_body g1 = Inr g'"
    by (auto simp: move_snake_unfold split: sum.splits)
  note lf = lengthen_snake_frame [OF l] and pf = pop_back_snake_body_frame [OF p]
  show "m_snake_positions g' =
           butlast (step_pos d (hd (m_snake_positions g)) # m_snake_positions g)"
    using lf(2) pf(2) by simp
  show "g' = g\<lparr>m_field := m_field g', m_snake_positions := m_snake_positions g'\<rparr>"
    by (subst pf(1), subst lf(1)) simp
qed

text \<open>
  The movement step changes neither the heading nor the score, and it can clear the
  running flag but never set it.
\<close>

lemma try_step_frame:
  assumes "try_step fruit (lengthen_snake d) (move_snake d) dist g = Some (Inr g')"
  shows "m_direction g' = m_direction g" and "m_score g' = m_score g"
    and "m_game_running g' \<longrightarrow> m_game_running g"
proof -
  have "m_direction g' = m_direction g \<and> m_score g' = m_score g \<and>
        (m_game_running g' \<longrightarrow> m_game_running g)"
  proof (cases fruit)
    case True
    show ?thesis
    proof (cases "lengthen_snake d g")
      case (Inl e)
      with assms True have "g' = g\<lparr>m_game_running := False\<rparr>"
        by (cases e) (simp_all add: try_step_def)
      then show ?thesis by simp
    next
      case (Inr g1)
      with assms True have new: "new_position dist g1 = Some (Inr g')"
        by (simp add: try_step_def)
      have "m_direction g' = m_direction g1 \<and> m_score g' = m_score g1 \<and>
          m_game_running g' = m_game_running g1"
        by (subst new_position_Some(4) [OF new], simp)+
      moreover have "m_direction g1 = m_direction g \<and> m_score g1 = m_score g \<and>
          m_game_running g1 = m_game_running g"
        by (subst lengthen_snake_frame(1) [OF Inr], simp)+
      ultimately show ?thesis by simp
    qed
  next
    case False
    show ?thesis
    proof (cases "move_snake d g")
      case (Inl e)
      with assms False have "g' = g\<lparr>m_game_running := False\<rparr>"
        by (cases e) (simp_all add: try_step_def)
      then show ?thesis by simp
    next
      case (Inr g1)
      with assms False have "g' = g1"
        by (simp add: try_step_def)
      moreover have "m_direction g1 = m_direction g \<and> m_score g1 = m_score g \<and>
          m_game_running g1 = m_game_running g"
        by (subst move_snake_frame(1) [OF Inr], simp)+
      ultimately show ?thesis by simp
    qed
  qed
  then show "m_direction g' = m_direction g" "m_score g' = m_score g"
    "m_game_running g' \<longrightarrow> m_game_running g"
    by simp_all
qed

lemma handle_movement_frame:
  assumes "handle_movement dist g = Some (Inr g')"
  shows "m_direction g' = m_direction g" and "m_score g' = m_score g"
    and "m_game_running g' \<longrightarrow> m_game_running g"
proof -
  from assms obtain fruit where
    "try_step fruit (lengthen_snake (m_direction g)) (move_snake (m_direction g)) dist g
       = Some (Inr g')"
    by (auto simp: handle_movement_unfold split: sum.splits)
  from try_step_frame [OF this]
  show "m_direction g' = m_direction g" "m_score g' = m_score g"
    "m_game_running g' \<longrightarrow> m_game_running g"
    by simp_all
qed

section \<open>The loop, and counting cells\<close>

lemma pop_back_snake_body_in_field:
  assumes "m_snake_positions g \<noteq> []" and "in_field (last (m_snake_positions g))"
  shows "\<exists>g'. pop_back_snake_body g = Inr g' \<and>
           m_snake_positions g' = butlast (m_snake_positions g)"
proof -
  from assms(2) obtain f' where
    "field_put (m_field g) (pos_i (last (m_snake_positions g)))
       (pos_j (last (m_snake_positions g))) EMPTY = Inr f'"
    using field_put_in_field by blast
  with assms(1) show ?thesis
    by (cases "m_snake_positions g") (simp_all add: pop_back_snake_body_def)
qed

lemma no_error_cells_iff:
  "no_error_cells g \<longleftrightarrow> (\<forall>p. in_field p \<longrightarrow> cell_at (m_field g) p \<noteq> ERROR)"
  by (simp add: no_error_cells_def list_all_iff set_all_positions)

lemma count_cells_card: "count_cells f c = card {p. in_field p \<and> cell_at f p = c}"
proof -
  have "count_cells f c = card ({p. cell_at f p = c} \<inter> set all_positions)"
    unfolding count_cells_def using distinct_all_positions by (rule distinct_length_filter)
  also have "{p. cell_at f p = c} \<inter> set all_positions = {p. in_field p \<and> cell_at f p = c}"
    unfolding set_all_positions by auto
  finally show ?thesis .
qed

lemma count_cells_total:
  assumes "\<forall>p. in_field p \<longrightarrow> cell_at f p \<noteq> ERROR"
  shows "count_cells f EMPTY + count_cells f SNAKE_HEAD + count_cells f SNAKE_BODY +
         count_cells f FRUIT = 100"
proof -
  have "length (filter (\<lambda>p. cell_at f p = EMPTY) xs) +
        length (filter (\<lambda>p. cell_at f p = SNAKE_HEAD) xs) +
        length (filter (\<lambda>p. cell_at f p = SNAKE_BODY) xs) +
        length (filter (\<lambda>p. cell_at f p = FRUIT) xs) = length xs"
    if "\<forall>p\<in>set xs. cell_at f p \<noteq> ERROR" for xs
    using that
  proof (induction xs)
    case Nil
    then show ?case by simp
  next
    case (Cons x xs)
    then show ?case by (cases "cell_at f x") simp_all
  qed
  from this [of all_positions] assms show ?thesis
    by (simp add: count_cells_def set_all_positions length_all_positions)
qed

lemma game_loop_from_stopped:
  "\<not> m_game_running g \<Longrightarrow> game_loop_from evs g = Some (Inr (leave_loop g))"
  by simp

lemma game_loop_from_tick:
  "m_game_running g \<Longrightarrow>
     game_loop_from (TickDue key dist # evs) g =
       (case tick key dist g of
          None \<Rightarrow> None
        | Some (Inl e) \<Rightarrow> Some (Inl e)
        | Some (Inr g') \<Rightarrow> game_loop_from evs g')"
  by simp

declare game_loop_from.simps [simp del]

lemma ticks_reachable: "reachable g \<Longrightarrow> ticks ks g = Some (Inr g') \<Longrightarrow> reachable g'"
proof (induction ks arbitrary: g)
  case Nil
  then show ?case by simp
next
  case (Cons k ks)
  obtain key dist where k: "k = (key, dist)"
    by (cases k)
  show ?case
  proof (cases "m_game_running g")
    case False
    with Cons.prems k show ?thesis by simp
  next
    case True
    with Cons.prems(2) k obtain g1 where t: "tick key dist g = Some (Inr g1)"
      and rest: "ticks ks g1 = Some (Inr g')"
      by (auto split: option.splits sum.splits)
    from reachable_tick [OF Cons.prems(1) True t] rest show ?thesis
      by (rule Cons.IH)
  qed
qed



section \<open>Concrete states and runs\<close>

lemma always_drawn: "drawn (always a b) n = \<lparr>pos_i = a, pos_j = b\<rparr>"
  by (simp add: drawn_def always_def)

lemma always_in_range: "0 \<le> a \<Longrightarrow> a \<le> 9 \<Longrightarrow> 0 \<le> b \<Longrightarrow> b \<le> 9 \<Longrightarrow> dist_in_range (always a b)"
  by (simp add: dist_in_range_def always_def field_height_def)

lemma gen_new_position_always:
  "in_field \<lparr>pos_i = a, pos_j = b\<rparr> \<Longrightarrow> cell_at f \<lparr>pos_i = a, pos_j = b\<rparr> = EMPTY \<Longrightarrow>
     gen_new_position f (always a b) = Some (Inr \<lparr>pos_i = a, pos_j = b\<rparr>)"
  unfolding gen_new_position_drawn always_drawn by (rule resample_stop)

lemma new_position_always:
  "in_field \<lparr>pos_i = a, pos_j = b\<rparr> \<Longrightarrow> cell_at (m_field g) \<lparr>pos_i = a, pos_j = b\<rparr> = EMPTY \<Longrightarrow>
     new_position (always a b) g =
       Some (Inr (g\<lparr>m_position := \<lparr>pos_i = a, pos_j = b\<rparr>,
                   m_field := (m_field g)(a := (m_field g a)(b := FRUIT))\<rparr>))"
  by (simp add: new_position_def gen_new_position_always fruit_update_field_def field_put_def
      in_field_def)

lemma game_new_always:
  assumes "in_field \<lparr>pos_i = a, pos_j = b\<rparr>" and "\<not> (a = 4 \<and> b = 4)"
  shows "game_new (always a b) =
           Some (Inr (lone_snake \<lparr>pos_i = 4, pos_j = 4\<rparr> \<lparr>pos_i = a, pos_j = b\<rparr>))"
proof -
  have "snake_new \<lparr>m_field = game_field_new, m_snake_positions = [],
              m_position = \<lparr>pos_i = 0, pos_j = 0\<rparr>,
              m_game_running = True, m_score = 0, m_direction = UP\<rparr> =
        Inr \<lparr>m_field = game_field_new(4 := (game_field_new 4)(4 := SNAKE_HEAD)),
             m_snake_positions = [\<lparr>pos_i = 4, pos_j = 4\<rparr>],
              m_position = \<lparr>pos_i = 0, pos_j = 0\<rparr>,
              m_game_running = True, m_score = 0, m_direction = UP\<rparr>"
    by (simp add: snake_new_def snake_update_field_def field_put_def in_array_def
        field_width_def field_height_def)
  moreover have "cell_at (game_field_new(4 := (game_field_new 4)(4 := SNAKE_HEAD)))
      \<lparr>pos_i = a, pos_j = b\<rparr> = EMPTY"
    using assms(2) by (simp add: cell_at_def game_field_new_def)
  ultimately show ?thesis
    using assms
    by (simp add: game_new_def new_position_always lone_snake_def game_field_new_def fun_eq_iff)
qed

lemmas step_defs =
  tick_def handle_key_def handle_movement_def is_fruit_in_direction_def field_get_def
  field_put_def in_array_def field_width_def field_height_def try_step_def
  is_space_for_snake_def snake_update_field_def pop_back_snake_body_def Let_def
  lengthen_snake_up_def lengthen_snake_down_def lengthen_snake_left_def lengthen_snake_right_def
  move_up_def move_down_def move_left_def move_right_def

lemma tick_lone_snake_up:
  assumes "0 < r" "r \<le> 9" "0 \<le> c" "c \<le> 9"
    and "\<not> (fi = r - 1 \<and> fj = c)" and "\<not> (fi = r \<and> fj = c)"
  shows "tick SCANCODE_OTHER dist (lone_snake \<lparr>pos_i = r, pos_j = c\<rparr> \<lparr>pos_i = fi, pos_j = fj\<rparr>) =
           Some (Inr (lone_snake \<lparr>pos_i = r - 1, pos_j = c\<rparr> \<lparr>pos_i = fi, pos_j = fj\<rparr>))"
  using assms by (auto simp: step_defs lone_snake_def fun_eq_iff)

lemma reachable_lone_snake_top:
  "reachable (lone_snake \<lparr>pos_i = 0, pos_j = 4\<rparr> \<lparr>pos_i = 9, pos_j = 9\<rparr>)"
proof -
  have "reachable (lone_snake \<lparr>pos_i = 4, pos_j = 4\<rparr> \<lparr>pos_i = 9, pos_j = 9\<rparr>)"
    by (rule reachable_new [of "always 9 9"])
       (simp add: game_new_always in_field_def in_array_def field_width_def field_height_def)
  moreover have "ticks [(SCANCODE_OTHER, d1), (SCANCODE_OTHER, d2), (SCANCODE_OTHER, d3),
      (SCANCODE_OTHER, d4)] (lone_snake \<lparr>pos_i = 4, pos_j = 4\<rparr> \<lparr>pos_i = 9, pos_j = 9\<rparr>) =
      Some (Inr (lone_snake \<lparr>pos_i = 0, pos_j = 4\<rparr> \<lparr>pos_i = 9, pos_j = 9\<rparr>))" for d1 d2 d3 d4
    by (simp add: tick_lone_snake_up) (simp add: lone_snake_def)
  ultimately show ?thesis
    by (rule ticks_reachable)
qed

lemma ticks_coiled:
  "ticks [(SCANCODE_UP, always 3 3), (SCANCODE_LEFT, always 4 3), (SCANCODE_DOWN, always 0 0)]
     (lone_snake \<lparr>pos_i = 4, pos_j = 4\<rparr> \<lparr>pos_i = 3, pos_j = 4\<rparr>) = Some (Inr coiled)"
  by (simp add: step_defs lone_snake_def coiled_def new_position_always in_field_def cell_at_def
      fun_eq_iff)

lemma reachable_fresh:
  "in_field \<lparr>pos_i = a, pos_j = b\<rparr> \<Longrightarrow> \<not> (a = 4 \<and> b = 4) \<Longrightarrow>
     reachable (lone_snake \<lparr>pos_i = 4, pos_j = 4\<rparr> \<lparr>pos_i = a, pos_j = b\<rparr>)"
  by (rule reachable_new [of "always a b"]) (simp add: game_new_always)

lemma reachable_coiled: "reachable coiled"
  by (rule ticks_reachable [OF reachable_fresh ticks_coiled])
     (simp_all add: in_field_def in_array_def field_width_def field_height_def)

lemma hatched_inv: "snake_inv hatched" "grid_agree hatched"
proof -
  show "snake_inv hatched"
    by (simp add: snake_inv_def hatched_def in_field_def in_array_def field_width_def
        field_height_def)
  show "grid_agree hatched"
    unfolding grid_agree_iff
    by (intro exI [of _ "\<lparr>pos_i = 4, pos_j = 4\<rparr>"] exI [of _ "[]"])
       (simp add: hatched_def cell_at_def pos_eq_iff)
qed

lemma new_position_hatched:
  assumes "in_field \<lparr>pos_i = a, pos_j = b\<rparr>" and "\<not> (a = 4 \<and> b = 4)"
  shows "new_position (always a b) hatched =
       Some (Inr (lone_snake \<lparr>pos_i = 4, pos_j = 4\<rparr> \<lparr>pos_i = a, pos_j = b\<rparr>))"
proof -
  have "cell_at (m_field hatched) \<lparr>pos_i = a, pos_j = b\<rparr> = EMPTY"
    using assms(2) by (auto simp: hatched_def cell_at_def)
  from new_position_always [OF assms(1) this] show ?thesis
    by (auto simp: hatched_def lone_snake_def fun_eq_iff)
qed

lemma tick_escape_eats:
  "tick SCANCODE_ESCAPE (always 0 0) (lone_snake \<lparr>pos_i = 4, pos_j = 4\<rparr> \<lparr>pos_i = 3, pos_j = 4\<rparr>) =
     Some (Inr
       \<lparr>m_field = (\<lambda>a b. if a = 0 \<and> b = 0 then FRUIT
                          else if a = 3 \<and> b = 4 then SNAKE_HEAD
                          else if a = 4 \<and> b = 4 then SNAKE_BODY else EMPTY),
        m_snake_positions = [\<lparr>pos_i = 3, pos_j = 4\<rparr>, \<lparr>pos_i = 4, pos_j = 4\<rparr>],
        m_position = \<lparr>pos_i = 0, pos_j = 0\<rparr>,
        m_game_running = False, m_score = 0, m_direction = UP\<rparr>)"
  by (simp add: step_defs lone_snake_def new_position_always in_field_def cell_at_def fun_eq_iff)

lemma coiled_inv: "snake_inv coiled" "no_error_cells coiled"
proof -
  show "snake_inv coiled"
    by (simp add: snake_inv_def coiled_def in_field_def in_array_def field_width_def
        field_height_def adjacent_def)
  show "no_error_cells coiled"
    unfolding no_error_cells_iff by (simp add: coiled_def cell_at_def)
qed

lemma lengthen_coiled_down:
  "lengthen_snake DOWN coiled =
     Inr (coiled
       \<lparr>m_field := (\<lambda>a b. if a = 0 \<and> b = 0 then FRUIT
                          else if a = 5 \<and> b = 3 then SNAKE_HEAD
                          else if (a = 4 \<and> b = 3) \<or> (a = 3 \<and> b = 3) \<or> (a = 3 \<and> b = 4) \<or>
                                  (a = 4 \<and> b = 4)
                            then SNAKE_BODY
                          else EMPTY),
        m_snake_positions :=
          [\<lparr>pos_i = 5, pos_j = 3\<rparr>, \<lparr>pos_i = 4, pos_j = 3\<rparr>, \<lparr>pos_i = 3, pos_j = 3\<rparr>,
           \<lparr>pos_i = 3, pos_j = 4\<rparr>, \<lparr>pos_i = 4, pos_j = 4\<rparr>]\<rparr>)"
  by (simp add: lengthen_snake_def step_defs coiled_def fun_eq_iff)


lemma tick_fresh_eats:
  "tick SCANCODE_OTHER (always 0 0) (lone_snake \<lparr>pos_i = 4, pos_j = 4\<rparr> \<lparr>pos_i = 3, pos_j = 4\<rparr>) =
     Some (Inr
       \<lparr>m_field = (\<lambda>a b. if a = 0 \<and> b = 0 then FRUIT
                          else if a = 3 \<and> b = 4 then SNAKE_HEAD
                          else if a = 4 \<and> b = 4 then SNAKE_BODY else EMPTY),
        m_snake_positions = [\<lparr>pos_i = 3, pos_j = 4\<rparr>, \<lparr>pos_i = 4, pos_j = 4\<rparr>],
        m_position = \<lparr>pos_i = 0, pos_j = 0\<rparr>,
        m_game_running = True, m_score = 0, m_direction = UP\<rparr>)"
  by (simp add: step_defs lone_snake_def new_position_always in_field_def cell_at_def fun_eq_iff)

text \<open>
  With samples in the range of the distribution, the generator returns exactly when some
  drawn position addresses an \<open>EMPTY\<close> cell, and it returns the first such position; the
  loop itself makes no access outside the field.
\<close>

lemma gen_new_position_returns_iff:
  "dist_in_range dist \<Longrightarrow>
     ((\<exists>pos. gen_new_position f dist = Some (Inr pos)) \<longleftrightarrow>
        (\<exists>n. cell_at f (drawn dist n) = EMPTY)) \<and>
     (gen_new_position f dist = None \<longleftrightarrow> (\<forall>n. cell_at f (drawn dist n) \<noteq> EMPTY)) \<and>
     (\<forall>n. cell_at f (drawn dist n) = EMPTY \<and> (\<forall>j<n. cell_at f (drawn dist j) \<noteq> EMPTY) \<longrightarrow>
        gen_new_position f dist = Some (Inr (drawn dist n)))"
proof -
  assume "dist_in_range dist"
  then have inside: "\<forall>j. in_field (drawn dist j)"
    by (simp add: in_field_drawn)
  have first: "gen_new_position f dist = Some (Inr (drawn dist n))"
    if "cell_at f (drawn dist n) = EMPTY" and "\<forall>j<n. cell_at f (drawn dist j) \<noteq> EMPTY" for n
    unfolding gen_new_position_drawn
    using inside that by (intro resample_first_hit) simp_all
  have never: "gen_new_position f dist = None" if "\<forall>n. cell_at f (drawn dist n) \<noteq> EMPTY"
    unfolding gen_new_position_drawn using inside that by (rule resample_never)
  have hit: "\<exists>pos. gen_new_position f dist = Some (Inr pos)"
    if ex: "\<exists>n. cell_at f (drawn dist n) = EMPTY"
  proof -
    define n where "n = (LEAST n. cell_at f (drawn dist n) = EMPTY)"
    from ex have "cell_at f (drawn dist n) = EMPTY"
      unfolding n_def by (rule LeastI_ex)
    moreover have "\<forall>j<n. cell_at f (drawn dist j) \<noteq> EMPTY"
      unfolding n_def using not_less_Least by blast
    ultimately show ?thesis
      using first by blast
  qed
  from first never hit show ?thesis
    by (metis option.distinct(1))
qed

text \<open>
  So, over all streams, the loop need not return: it does not for the stream that draws
  the cell of the new snake every time. Which streams \<^verbatim>\<open>std::mt19937\<close> can produce is not
  part of this model.
\<close>

lemma gen_new_position_constant_stream:
  "cell_at (m_field hatched) \<lparr>pos_i = 0, pos_j = 0\<rparr> = EMPTY \<and>
   dist_in_range (always 4 4) \<and>
   gen_new_position (m_field hatched) (always 4 4) = None"
proof -
  have "\<forall>j. in_field (drawn (always 4 4) j)"
    by (simp add: always_drawn in_field_def in_array_def field_width_def field_height_def)
  moreover have "\<forall>j. cell_at (m_field hatched) (drawn (always 4 4) j) \<noteq> EMPTY"
    by (simp add: always_drawn hatched_def cell_at_def)
  ultimately have "gen_new_position (m_field hatched) (always 4 4) = None"
    unfolding gen_new_position_drawn by (rule resample_never)
  then show ?thesis
    by (simp add: always_in_range hatched_def cell_at_def)
qed

section \<open>The claims\<close>

text \<open>
  C1, as stated: reading Escape ends the session at once, with no movement, growth or
  fruit relocation in that logic update, and the score is the snake's length when Escape
  was read. It is not so: in the fresh session whose fruit is right above the snake (of
  length 1), the update that reads Escape still grows the snake onto the fruit and
  relocates the fruit, and the reported score is 2.
\<close>

theorem escape_tick_still_moves:
  "game_new (always 3 4) =
     Some (Inr (lone_snake \<lparr>pos_i = 4, pos_j = 4\<rparr> \<lparr>pos_i = 3, pos_j = 4\<rparr>)) \<and>
   m_snake_positions (lone_snake \<lparr>pos_i = 4, pos_j = 4\<rparr> \<lparr>pos_i = 3, pos_j = 4\<rparr>) =
     [\<lparr>pos_i = 4, pos_j = 4\<rparr>] \<and>
   map_option (map_sum id m_snake_positions)
     (tick SCANCODE_ESCAPE (always 0 0)
        (lone_snake \<lparr>pos_i = 4, pos_j = 4\<rparr> \<lparr>pos_i = 3, pos_j = 4\<rparr>)) =
     Some (Inr [\<lparr>pos_i = 3, pos_j = 4\<rparr>, \<lparr>pos_i = 4, pos_j = 4\<rparr>]) \<and>
   map_option (map_sum id m_position)
     (tick SCANCODE_ESCAPE (always 0 0)
        (lone_snake \<lparr>pos_i = 4, pos_j = 4\<rparr> \<lparr>pos_i = 3, pos_j = 4\<rparr>)) =
     Some (Inr \<lparr>pos_i = 0, pos_j = 0\<rparr>) \<and>
   map_option (map_sum id m_score)
     (game_loop (always 3 4) [TickDue SCANCODE_ESCAPE (always 0 0)]) = Some (Inr 2)"
proof -
  have new: "game_new (always 3 4) =
     Some (Inr (lone_snake \<lparr>pos_i = 4, pos_j = 4\<rparr> \<lparr>pos_i = 3, pos_j = 4\<rparr>))"
    by (rule game_new_always)
       (simp_all add: in_field_def in_array_def field_width_def field_height_def)
  have run: "m_game_running (lone_snake \<lparr>pos_i = 4, pos_j = 4\<rparr> \<lparr>pos_i = 3, pos_j = 4\<rparr>)"
    by (simp add: lone_snake_def)
  show ?thesis
    unfolding game_loop_def new
    by (simp add: game_loop_from_tick [OF run] tick_escape_eats game_loop_from_stopped
        leave_loop_def)
       (simp add: lone_snake_def)
qed

text \<open>
  C1, amended. Reading Escape clears the running flag and changes nothing else; the
  movement step of that logic update is then made as usual (move, growth with fruit
  relocation, or blocked move); when it returns, the session is over, and the score is the
  snake's length after that step.
\<close>

theorem escape_ends_session_after_movement:
  "tick SCANCODE_ESCAPE dist g = handle_movement dist (g\<lparr>m_game_running := False\<rparr>) \<and>
   (m_game_running g \<longrightarrow> tick SCANCODE_ESCAPE dist g = Some (Inr g') \<longrightarrow>
      \<not> m_game_running g' \<and> m_direction g' = m_direction g \<and>
      game_loop_from (TickDue SCANCODE_ESCAPE dist # evs) g =
        Some (Inr (g'\<lparr>m_score := int (length (m_snake_positions g'))\<rparr>)))"
proof -
  have t: "tick SCANCODE_ESCAPE dist g = handle_movement dist (g\<lparr>m_game_running := False\<rparr>)"
    by (simp add: tick_def handle_key_def)
  moreover have "\<not> m_game_running g' \<and> m_direction g' = m_direction g \<and>
      game_loop_from (TickDue SCANCODE_ESCAPE dist # evs) g =
        Some (Inr (g'\<lparr>m_score := int (length (m_snake_positions g'))\<rparr>))"
    if run: "m_game_running g" and res: "tick SCANCODE_ESCAPE dist g = Some (Inr g')"
  proof -
    from res t have "handle_movement dist (g\<lparr>m_game_running := False\<rparr>) = Some (Inr g')"
      by simp
    from handle_movement_frame(1,3) [OF this]
    have stopped: "\<not> m_game_running g'" and dir: "m_direction g' = m_direction g"
      by simp_all
    from run res stopped show ?thesis
      using dir by (simp add: game_loop_from_tick game_loop_from_stopped leave_loop_def)
  qed
  ultimately show ?thesis by blast
qed

theorem escape_ends_session_after_movement_witness:
  "m_game_running (lone_snake \<lparr>pos_i = 4, pos_j = 4\<rparr> \<lparr>pos_i = 9, pos_j = 9\<rparr>) \<and>
   tick SCANCODE_ESCAPE (always 0 0) (lone_snake \<lparr>pos_i = 4, pos_j = 4\<rparr> \<lparr>pos_i = 9, pos_j = 9\<rparr>) =
     Some (Inr ((lone_snake \<lparr>pos_i = 3, pos_j = 4\<rparr> \<lparr>pos_i = 9, pos_j = 9\<rparr>)
                  \<lparr>m_game_running := False\<rparr>)) \<and>
   game_loop_from [TickDue SCANCODE_ESCAPE (always 0 0)]
     (lone_snake \<lparr>pos_i = 4, pos_j = 4\<rparr> \<lparr>pos_i = 9, pos_j = 9\<rparr>) =
     Some (Inr ((lone_snake \<lparr>pos_i = 3, pos_j = 4\<rparr> \<lparr>pos_i = 9, pos_j = 9\<rparr>)
                  \<lparr>m_game_running := False, m_score := 1\<rparr>))"
proof -
  let ?g = "lone_snake \<lparr>pos_i = 4, pos_j = 4\<rparr> \<lparr>pos_i = 9, pos_j = 9\<rparr>"
  let ?g' = "(lone_snake \<lparr>pos_i = 3, pos_j = 4\<rparr> \<lparr>pos_i = 9, pos_j = 9\<rparr>)\<lparr>m_game_running := False\<rparr>"
  have run: "m_game_running ?g"
    by (simp add: lone_snake_def)
  have t: "tick SCANCODE_ESCAPE (always 0 0) ?g = Some (Inr ?g')"
    by (simp add: step_defs lone_snake_def fun_eq_iff)
  from escape_ends_session_after_movement [of "always 0 0" ?g ?g' "[]"] run t show ?thesis
    by (simp add: lone_snake_def)
qed

text \<open>
  C2. The fruit test of a logic update reads the cell one step ahead of the head through
  the unchecked \<^verbatim>\<open>operator()\<close>, not through \<^verbatim>\<open>at\<close>. In the session whose fruit is at
  \<open>(9, 9)\<close>, four updates with no key pressed bring the head to \<open>(0, 4)\<close>, still heading up
  and running; there the test indexes \<^verbatim>\<open>m_field[-1][4]\<close>, outside the array, where \<^verbatim>\<open>at\<close>
  would have returned \<open>ERROR\<close>, and the next update has no defined result.
\<close>

theorem fruit_probe_leaves_field:
  "reachable (lone_snake \<lparr>pos_i = 0, pos_j = 4\<rparr> \<lparr>pos_i = 9, pos_j = 9\<rparr>) \<and>
   m_game_running (lone_snake \<lparr>pos_i = 0, pos_j = 4\<rparr> \<lparr>pos_i = 9, pos_j = 9\<rparr>) \<and>
   m_direction (lone_snake \<lparr>pos_i = 0, pos_j = 4\<rparr> \<lparr>pos_i = 9, pos_j = 9\<rparr>) = UP \<and>
   m_snake_positions (lone_snake \<lparr>pos_i = 0, pos_j = 4\<rparr> \<lparr>pos_i = 9, pos_j = 9\<rparr>) =
     [\<lparr>pos_i = 0, pos_j = 4\<rparr>] \<and>
   \<not> in_array (- 1) 4 \<and>
   is_fruit_in_direction (lone_snake \<lparr>pos_i = 0, pos_j = 4\<rparr> \<lparr>pos_i = 9, pos_j = 9\<rparr>) =
     Inl Undefined \<and>
   at (m_field (lone_snake \<lparr>pos_i = 0, pos_j = 4\<rparr> \<lparr>pos_i = 9, pos_j = 9\<rparr>)) (- 1) 4 =
     Inr ERROR \<and>
   tick SCANCODE_OTHER (always 0 0) (lone_snake \<lparr>pos_i = 0, pos_j = 4\<rparr> \<lparr>pos_i = 9, pos_j = 9\<rparr>) =
     Some (Inl Undefined)"
proof -
  have "is_fruit_in_direction (lone_snake \<lparr>pos_i = 0, pos_j = 4\<rparr> \<lparr>pos_i = 9, pos_j = 9\<rparr>) =
     Inl Undefined"
    by (simp add: is_fruit_in_direction_def lone_snake_def field_get_def in_array_def)
  moreover have "tick SCANCODE_OTHER (always 0 0)
      (lone_snake \<lparr>pos_i = 0, pos_j = 4\<rparr> \<lparr>pos_i = 9, pos_j = 9\<rparr>) = Some (Inl Undefined)"
    by (simp add: step_defs lone_snake_def)
  ultimately show ?thesis
    using reachable_lone_snake_top
    by (simp add: at_def in_array_def field_width_def) (simp add: lone_snake_def)
qed

text \<open>
  C3. In a state satisfying the snake invariant, the growth and the movement operation
  of a direction signal \<open>BlockedMove\<close> if and only if the candidate head (the head plus the
  unit offset of the direction) lies outside the field, or its cell is neither \<open>EMPTY\<close> nor
  \<open>FRUIT\<close>, which, the field storing no \<open>ERROR\<close>, means \<open>SNAKE_HEAD\<close> or \<open>SNAKE_BODY\<close>;
  otherwise they succeed and the candidate is the new head (the movement also drops the
  tail).
\<close>

theorem blocked_move_iff:
  assumes "snake_inv g"
  shows
    "(lengthen_snake d g = Inl BlockedMove \<longleftrightarrow>
        \<not> in_field (step_pos d (hd (m_snake_positions g))) \<or>
        (cell_at (m_field g) (step_pos d (hd (m_snake_positions g))) \<noteq> EMPTY \<and>
         cell_at (m_field g) (step_pos d (hd (m_snake_positions g))) \<noteq> FRUIT)) \<and>
     (no_error_cells g \<longrightarrow>
        (lengthen_snake d g = Inl BlockedMove \<longleftrightarrow>
           \<not> in_field (step_pos d (hd (m_snake_positions g))) \<or>
           cell_at (m_field g) (step_pos d (hd (m_snake_positions g))) = SNAKE_HEAD \<or>
           cell_at (m_field g) (step_pos d (hd (m_snake_positions g))) = SNAKE_BODY)) \<and>
     (move_snake d g = Inl BlockedMove \<longleftrightarrow> lengthen_snake d g = Inl BlockedMove) \<and>
     (lengthen_snake d g \<noteq> Inl BlockedMove \<longrightarrow>
        (\<exists>g'. lengthen_snake d g = Inr g' \<and>
           m_snake_positions g' =
             step_pos d (hd (m_snake_positions g)) # m_snake_positions g) \<and>
        (\<exists>g'. move_snake d g = Inr g' \<and>
           m_snake_positions g' =
             step_pos d (hd (m_snake_positions g)) # butlast (m_snake_positions g)))"
proof -
  from assms obtain h cs where snake: "m_snake_positions g = h # cs"
    by (cases "m_snake_positions g") (simp_all add: snake_inv_def)
  with assms have all_in: "list_all in_field (h # cs)"
    by (simp add: snake_inv_def)
  then have h_in: "in_field h"
    by simp
  let ?c = "step_pos d h"
  note blocked = lengthen_snake_blocked_iff [OF snake h_in, of d]
  have kinds: "cell_at (m_field g) ?c = SNAKE_HEAD \<or> cell_at (m_field g) ?c = SNAKE_BODY \<longleftrightarrow>
      cell_at (m_field g) ?c \<noteq> EMPTY \<and> cell_at (m_field g) ?c \<noteq> FRUIT"
    if "no_error_cells g" and "in_field ?c"
    using that unfolding no_error_cells_iff
    by (cases "cell_at (m_field g) ?c") auto
  have named: "lengthen_snake d g = Inl BlockedMove \<longleftrightarrow>
        \<not> in_field ?c \<or> cell_at (m_field g) ?c = SNAKE_HEAD \<or> cell_at (m_field g) ?c = SNAKE_BODY"
    if "no_error_cells g"
    unfolding blocked using kinds [OF that] by blast
  have free: "(\<exists>g'. lengthen_snake d g = Inr g' \<and> m_snake_positions g' = ?c # h # cs) \<and>
        (\<exists>g'. move_snake d g = Inr g' \<and> m_snake_positions g' = ?c # butlast (h # cs))"
    if "lengthen_snake d g \<noteq> Inl BlockedMove"
  proof -
    from that blocked have c: "in_field ?c"
      "cell_at (m_field g) ?c = EMPTY \<or> cell_at (m_field g) ?c = FRUIT"
      by blast+
    from lengthen_snake_free [OF snake all_in c] obtain f' where
      l: "lengthen_snake d g = Inr (g\<lparr>m_snake_positions := ?c # h # cs, m_field := f'\<rparr>)"
      by blast
    let ?g1 = "g\<lparr>m_snake_positions := ?c # h # cs, m_field := f'\<rparr>"
    have "in_field (last (m_snake_positions ?g1))"
      using all_in by (simp add: list_all_iff)
    with pop_back_snake_body_in_field [of ?g1] obtain g2 where
      "pop_back_snake_body ?g1 = Inr g2" "m_snake_positions g2 = butlast (?c # h # cs)"
      by auto
    with l show ?thesis
      by (simp add: move_snake_unfold)
  qed
  from blocked named free snake show ?thesis
    by (simp add: move_snake_blocked_iff)
qed

theorem blocked_move_iff_witness:
  "snake_inv coiled \<and> no_error_cells coiled \<and>
   step_pos RIGHT (hd (m_snake_positions coiled)) = \<lparr>pos_i = 4, pos_j = 4\<rparr> \<and>
   cell_at (m_field coiled) \<lparr>pos_i = 4, pos_j = 4\<rparr> = SNAKE_BODY \<and>
   lengthen_snake RIGHT coiled = Inl BlockedMove \<and>
   move_snake RIGHT coiled = Inl BlockedMove \<and>
   step_pos DOWN (hd (m_snake_positions coiled)) = \<lparr>pos_i = 5, pos_j = 3\<rparr> \<and>
   cell_at (m_field coiled) \<lparr>pos_i = 5, pos_j = 3\<rparr> = EMPTY \<and>
   lengthen_snake DOWN coiled \<noteq> Inl BlockedMove"
proof -
  have r: "step_pos RIGHT (hd (m_snake_positions coiled)) = \<lparr>pos_i = 4, pos_j = 4\<rparr>"
    and d: "step_pos DOWN (hd (m_snake_positions coiled)) = \<lparr>pos_i = 5, pos_j = 3\<rparr>"
    by (simp_all add: coiled_def step_pos_def)
  have cr: "cell_at (m_field coiled) \<lparr>pos_i = 4, pos_j = 4\<rparr> = SNAKE_BODY"
    and cd: "cell_at (m_field coiled) \<lparr>pos_i = 5, pos_j = 3\<rparr> = EMPTY"
    and ind: "in_field \<lparr>pos_i = 5, pos_j = 3\<rparr>"
    by (simp_all add: coiled_def cell_at_def in_field_def in_array_def field_width_def
        field_height_def)
  from blocked_move_iff [OF coiled_inv(1), of RIGHT] blocked_move_iff [OF coiled_inv(1), of DOWN]
  show ?thesis
    unfolding r d using coiled_inv cr cd ind by simp
qed

text \<open>
  C4. In every reachable state, so in every running one, the field holds exactly one
  \<open>SNAKE_HEAD\<close> cell, exactly \<open>length snake - 1\<close> \<open>SNAKE_BODY\<close> cells and at most one \<open>FRUIT\<close>
  cell, and every other of its 100 cells is \<open>EMPTY\<close>.
\<close>

theorem grid_census:
  assumes "reachable g"
  shows "count_cells (m_field g) SNAKE_HEAD = 1 \<and>
         count_cells (m_field g) SNAKE_BODY = length (m_snake_positions g) - 1 \<and>
         count_cells (m_field g) FRUIT \<le> 1 \<and>
         count_cells (m_field g) EMPTY + count_cells (m_field g) SNAKE_HEAD +
           count_cells (m_field g) SNAKE_BODY + count_cells (m_field g) FRUIT = 100"
proof -
  from reachable_inv [OF assms] have inv: "snake_inv g" "grid_agree g" "fruit_inv g"
    by (simp_all add: game_inv_def)
  from inv(2) obtain h cs where snake: "m_snake_positions g = h # cs" and
    agree: "\<forall>p. in_field p \<longrightarrow>
           (if p = h then cell_at (m_field g) p = SNAKE_HEAD
            else if p \<in> set cs then cell_at (m_field g) p = SNAKE_BODY
            else cell_at (m_field g) p = EMPTY \<or> cell_at (m_field g) p = FRUIT)"
    unfolding grid_agree_iff by blast
  from inv(1) snake have all_in: "\<forall>p\<in>set (h # cs). in_field p" and dist: "distinct (h # cs)"
    by (simp_all add: snake_inv_def list_all_iff)
  have cell: "cell_at (m_field g) p =
      SNAKE_HEAD \<longleftrightarrow> p = h" "cell_at (m_field g) p = SNAKE_BODY \<longleftrightarrow> p \<in> set cs"
    "cell_at (m_field g) p \<noteq> ERROR" if "in_field p" for p
    using agree that dist by (auto split: if_splits)
  have "{p. in_field p \<and> cell_at (m_field g) p = SNAKE_HEAD} = {h}"
    using cell(1) all_in by auto
  then have head: "count_cells (m_field g) SNAKE_HEAD = 1"
    by (simp add: count_cells_card)
  have "{p. in_field p \<and> cell_at (m_field g) p = SNAKE_BODY} = set cs"
    using cell(2) all_in by auto
  then have "count_cells (m_field g) SNAKE_BODY = card (set cs)"
    by (simp add: count_cells_card)
  also have "\<dots> = length cs"
    using dist by (simp add: distinct_card)
  finally have body: "count_cells (m_field g) SNAKE_BODY = length (m_snake_positions g) - 1"
    using snake by simp
  have "{p. in_field p \<and> cell_at (m_field g) p = FRUIT} \<subseteq> {m_position g}"
    using inv(3) unfolding fruit_inv_iff by auto
  then have "card {p. in_field p \<and> cell_at (m_field g) p = FRUIT} \<le> card {m_position g}"
    by (intro card_mono) simp_all
  then have fruit: "count_cells (m_field g) FRUIT \<le> 1"
    by (simp add: count_cells_card)
  from head body fruit count_cells_total [of "m_field g"] cell(3) show ?thesis
    by blast
qed

theorem grid_census_witness:
  "reachable coiled \<and> length (m_snake_positions coiled) = 4 \<and>
   count_cells (m_field coiled) SNAKE_HEAD = 1 \<and>
   count_cells (m_field coiled) SNAKE_BODY = 3 \<and>
   count_cells (m_field coiled) FRUIT \<le> 1 \<and>
   count_cells (m_field coiled) EMPTY + count_cells (m_field coiled) SNAKE_HEAD +
     count_cells (m_field coiled) SNAKE_BODY + count_cells (m_field coiled) FRUIT = 100"
proof -
  have "length (m_snake_positions coiled) = 4"
    by (simp add: coiled_def)
  with grid_census [OF reachable_coiled] reachable_coiled show ?thesis
    by simp
qed

text \<open>
  C5. In every reachable state the snake's position list has at least one element, its
  positions are pairwise distinct and inside the field, and consecutive positions are
  grid-adjacent. The growth and the movement operation of every direction keep this:
  run in a state with the invariant whose field marks the snake's cells (every
  reachable state is one, before and after the key of a logic update is handled), their
  result has the invariant again, and its field again marks the snake's cells.
\<close>

theorem snake_invariant:
  "(reachable g \<longrightarrow> snake_inv g \<and> game_inv (handle_key key g)) \<and>
   (game_inv g \<longrightarrow> lengthen_snake d g = Inr g' \<or> move_snake d g = Inr g' \<longrightarrow>
      snake_inv g' \<and> game_inv g')"
proof -
  have "snake_inv g \<and> game_inv (handle_key key g)" if "reachable g"
  proof -
    from reachable_inv [OF that] have gi: "game_inv g" .
    then have "snake_inv g"
      by (simp add: game_inv_def)
    moreover from gi have "game_inv (handle_key key g)"
      by (simp only: handle_key_inv)
    ultimately show ?thesis ..
  qed
  moreover have "snake_inv g' \<and> game_inv g'"
    if inv: "game_inv g" and op: "lengthen_snake d g = Inr g' \<or> move_snake d g = Inr g'"
  proof -
    from inv have i: "snake_inv g" "grid_agree g" "fruit_inv g"
      by (simp_all add: game_inv_def)
    from op show ?thesis
    proof
      assume "lengthen_snake d g = Inr g'"
      from lengthen_snake_inv(1-3) [OF i this] show ?thesis
        by (simp add: game_inv_def)
    next
      assume "move_snake d g = Inr g'"
      from move_snake_inv [OF i this] show ?thesis
        by (simp add: game_inv_def)
    qed
  qed
  ultimately show ?thesis by blast
qed

theorem snake_invariant_witness:
  "reachable coiled \<and> snake_inv coiled \<and> game_inv coiled \<and>
   map_sum id m_snake_positions (lengthen_snake DOWN coiled) =
     Inr [\<lparr>pos_i = 5, pos_j = 3\<rparr>, \<lparr>pos_i = 4, pos_j = 3\<rparr>, \<lparr>pos_i = 3, pos_j = 3\<rparr>,
          \<lparr>pos_i = 3, pos_j = 4\<rparr>, \<lparr>pos_i = 4, pos_j = 4\<rparr>] \<and>
   snake_inv (coiled
       \<lparr>m_field := (\<lambda>a b. if a = 0 \<and> b = 0 then FRUIT
                          else if a = 5 \<and> b = 3 then SNAKE_HEAD
                          else if (a = 4 \<and> b = 3) \<or> (a = 3 \<and> b = 3) \<or> (a = 3 \<and> b = 4) \<or>
                                  (a = 4 \<and> b = 4)
                            then SNAKE_BODY
                          else EMPTY),
        m_snake_positions :=
          [\<lparr>pos_i = 5, pos_j = 3\<rparr>, \<lparr>pos_i = 4, pos_j = 3\<rparr>, \<lparr>pos_i = 3, pos_j = 3\<rparr>,
           \<lparr>pos_i = 3, pos_j = 4\<rparr>, \<lparr>pos_i = 4, pos_j = 4\<rparr>]\<rparr>)"
proof -
  note a = snake_invariant [of coiled SCANCODE_OTHER DOWN, THEN conjunct1, rule_format,
      OF reachable_coiled]
  then have inv: "game_inv coiled"
    by (simp add: handle_key_def)
  note b = snake_invariant [of coiled SCANCODE_OTHER DOWN, THEN conjunct2, rule_format,
      OF inv disjI1, OF lengthen_coiled_down]
  from a b inv reachable_coiled show ?thesis
    by (simp add: lengthen_coiled_down)
qed


text \<open>
  C7. The position chosen by \<^verbatim>\<open>fruit_t::new_position\<close> (the constructor of \<^verbatim>\<open>fruit_t\<close> has
  the same body) addresses a cell of the field that is \<open>EMPTY\<close> when it is chosen; the
  cell is then marked \<open>FRUIT\<close>; and when the field marks the snake's cells, as it does at
  both call sites, the position differs from every position of the snake.
\<close>

theorem fruit_placed_on_empty_cell:
  "new_position dist g = Some (Inr g') \<Longrightarrow>
     in_field (m_position g') \<and>
     cell_at (m_field g) (m_position g') = EMPTY \<and>
     cell_at (m_field g') (m_position g') = FRUIT \<and>
     m_snake_positions g' = m_snake_positions g \<and>
     (snake_inv g \<and> grid_agree g \<longrightarrow> m_position g' \<notin> set (m_snake_positions g'))"
proof -
  assume new: "new_position dist g = Some (Inr g')"
  note np = new_position_Some [OF new]
  have snake: "m_snake_positions g' = m_snake_positions g"
    by (subst np(4)) simp
  have "m_position g' \<notin> set (m_snake_positions g)" if "snake_inv g" and "grid_agree g"
    using snake_inv_cells [OF that, of "m_position g'"] np(2) by auto
  with np(1,2) np(3) [of "m_position g'"] snake show ?thesis
    by simp
qed

theorem fruit_placed_on_empty_cell_witness:
  "snake_inv hatched \<and> grid_agree hatched \<and>
   new_position (always 3 4) hatched =
     Some (Inr (lone_snake \<lparr>pos_i = 4, pos_j = 4\<rparr> \<lparr>pos_i = 3, pos_j = 4\<rparr>)) \<and>
   cell_at (m_field hatched) \<lparr>pos_i = 3, pos_j = 4\<rparr> = EMPTY \<and>
   cell_at (m_field (lone_snake \<lparr>pos_i = 4, pos_j = 4\<rparr> \<lparr>pos_i = 3, pos_j = 4\<rparr>))
     \<lparr>pos_i = 3, pos_j = 4\<rparr> = FRUIT \<and>
   \<lparr>pos_i = 3, pos_j = 4\<rparr> \<notin>
     set (m_snake_positions (lone_snake \<lparr>pos_i = 4, pos_j = 4\<rparr> \<lparr>pos_i = 3, pos_j = 4\<rparr>))"
proof -
  have new: "new_position (always 3 4) hatched =
     Some (Inr (lone_snake \<lparr>pos_i = 4, pos_j = 4\<rparr> \<lparr>pos_i = 3, pos_j = 4\<rparr>))"
    by (rule new_position_hatched)
       (simp_all add: in_field_def in_array_def field_width_def field_height_def)
  have pos: "m_position (lone_snake \<lparr>pos_i = 4, pos_j = 4\<rparr> \<lparr>pos_i = 3, pos_j = 4\<rparr>) =
      \<lparr>pos_i = 3, pos_j = 4\<rparr>"
    by (simp add: lone_snake_def)
  from fruit_placed_on_empty_cell [OF new] hatched_inv new show ?thesis
    unfolding pos by blast
qed

text \<open>
  C9. For every heading \<open>h\<close>, processing the key that asks for the exact reverse of \<open>h\<close>
  (Up against Down, Left against Right) leaves the stored heading equal to \<open>h\<close>: both
  right after the key is handled and after the whole logic update, whatever the snake's
  length.
\<close>

theorem reverse_key_keeps_heading:
  "m_direction (handle_key (reverse_key (m_direction g)) g) = m_direction g \<and>
   (tick (reverse_key (m_direction g)) dist g = Some (Inr g') \<longrightarrow>
      m_direction g' = m_direction g)"
proof -
  have key: "m_direction (handle_key (reverse_key (m_direction g)) g) = m_direction g"
    by (cases "m_direction g") (simp_all add: handle_key_def reverse_key_def)
  moreover have "m_direction g' = m_direction g"
    if "tick (reverse_key (m_direction g)) dist g = Some (Inr g')"
    using handle_movement_frame(1) [OF that [unfolded tick_def]] key by simp
  ultimately show ?thesis by blast
qed

theorem reverse_key_keeps_heading_witness:
  "length (m_snake_positions (lone_snake \<lparr>pos_i = 4, pos_j = 4\<rparr> \<lparr>pos_i = 9, pos_j = 9\<rparr>)) = 1 \<and>
   reverse_key UP = SCANCODE_DOWN \<and>
   tick SCANCODE_DOWN (always 0 0) (lone_snake \<lparr>pos_i = 4, pos_j = 4\<rparr> \<lparr>pos_i = 9, pos_j = 9\<rparr>) =
     Some (Inr (lone_snake \<lparr>pos_i = 3, pos_j = 4\<rparr> \<lparr>pos_i = 9, pos_j = 9\<rparr>)) \<and>
   m_direction (lone_snake \<lparr>pos_i = 3, pos_j = 4\<rparr> \<lparr>pos_i = 9, pos_j = 9\<rparr>) = UP"
proof -
  let ?g = "lone_snake \<lparr>pos_i = 4, pos_j = 4\<rparr> \<lparr>pos_i = 9, pos_j = 9\<rparr>"
  let ?g' = "lone_snake \<lparr>pos_i = 3, pos_j = 4\<rparr> \<lparr>pos_i = 9, pos_j = 9\<rparr>"
  have up: "m_direction ?g = UP" and rk: "reverse_key UP = SCANCODE_DOWN"
    by (simp_all add: lone_snake_def reverse_key_def)
  have t: "tick SCANCODE_DOWN (always 0 0) ?g = Some (Inr ?g')"
    by (simp add: step_defs lone_snake_def fun_eq_iff)
  from reverse_key_keeps_heading [of ?g "always 0 0" ?g'] up rk t show ?thesis
    by (simp add: lone_snake_def)
qed

text \<open>
  C10. In a reachable state, when the fruit test of a logic update finds \<open>FRUIT\<close> one step
  ahead of the head, the growth operation that follows succeeds and lengthens the snake
  by one cell: the handler of \<open>BlockedMove\<close> in the fruit case is not reached, and the
  update leaves the running flag as the key handling left it.
\<close>

theorem fruit_ahead_never_blocked:
  assumes "reachable g0" and "g = handle_key key g0"
    and "is_fruit_in_direction g = Inr True"
  shows
    "(\<exists>g1. lengthen_snake (m_direction g) g = Inr g1 \<and>
        length (m_snake_positions g1) = length (m_snake_positions g0) + 1) \<and>
     tick key dist g0 \<noteq> Some (Inr (g\<lparr>m_game_running := False\<rparr>)) \<and>
     (tick key dist g0 = Some (Inr g') \<longrightarrow>
        m_game_running g' = m_game_running g \<and>
        length (m_snake_positions g') = length (m_snake_positions g0) + 1)"
proof -
  from reachable_inv [OF assms(1)] assms(2) have "game_inv g"
    by (simp only: handle_key_inv)
  then have inv: "snake_inv g" "grid_agree g" "fruit_inv g"
    by (simp_all add: game_inv_def)
  from inv(1) obtain h cs where snake: "m_snake_positions g = h # cs"
    by (cases "m_snake_positions g") (simp_all add: snake_inv_def)
  with inv(1) have all_in: "list_all in_field (h # cs)"
    by (simp add: snake_inv_def)
  let ?c = "step_pos (m_direction g) h"
  from assms(3) snake have c: "in_field ?c" "cell_at (m_field g) ?c = FRUIT"
    by (simp_all add: is_fruit_in_direction_cell split: if_splits)
  from lengthen_snake_free [OF snake all_in c(1)] c(2) obtain f' where
    l: "lengthen_snake (m_direction g) g =
          Inr (g\<lparr>m_snake_positions := ?c # h # cs, m_field := f'\<rparr>)"
    by auto
  let ?g1 = "g\<lparr>m_snake_positions := ?c # h # cs, m_field := f'\<rparr>"
  have len0: "length (m_snake_positions g0) = length (h # cs)"
    using assms(2) snake handle_key_fields(2) [of key g0] by simp
  have t: "tick key dist g0 = new_position dist ?g1"
    unfolding tick_def assms(2) [symmetric]
    by (simp add: handle_movement_unfold assms(3) try_step_def l)
  have after: "m_game_running g' = m_game_running g \<and>
        length (m_snake_positions g') = length (m_snake_positions g0) + 1"
    if "tick key dist g0 = Some (Inr g')" for g'
  proof -
    from that t have new: "new_position dist ?g1 = Some (Inr g')"
      by simp
    have "m_game_running g' = m_game_running ?g1"
      and "m_snake_positions g' = m_snake_positions ?g1"
      by (subst new_position_Some(4) [OF new], simp)+
    with len0 show ?thesis by simp
  qed
  have "tick key dist g0 \<noteq> Some (Inr (g\<lparr>m_game_running := False\<rparr>))"
  proof
    assume "tick key dist g0 = Some (Inr (g\<lparr>m_game_running := False\<rparr>))"
    from after [OF this] len0 snake show False by simp
  qed
  with l len0 after show ?thesis
    by simp
qed

theorem fruit_ahead_never_blocked_witness:
  "reachable (lone_snake \<lparr>pos_i = 4, pos_j = 4\<rparr> \<lparr>pos_i = 3, pos_j = 4\<rparr>) \<and>
   is_fruit_in_direction
     (handle_key SCANCODE_OTHER (lone_snake \<lparr>pos_i = 4, pos_j = 4\<rparr> \<lparr>pos_i = 3, pos_j = 4\<rparr>)) =
     Inr True \<and>
   map_option (map_sum id m_snake_positions)
     (tick SCANCODE_OTHER (always 0 0)
        (lone_snake \<lparr>pos_i = 4, pos_j = 4\<rparr> \<lparr>pos_i = 3, pos_j = 4\<rparr>)) =
     Some (Inr [\<lparr>pos_i = 3, pos_j = 4\<rparr>, \<lparr>pos_i = 4, pos_j = 4\<rparr>]) \<and>
   map_option (map_sum id m_game_running)
     (tick SCANCODE_OTHER (always 0 0)
        (lone_snake \<lparr>pos_i = 4, pos_j = 4\<rparr> \<lparr>pos_i = 3, pos_j = 4\<rparr>)) =
     Some (Inr True)"
proof -
  let ?g = "lone_snake \<lparr>pos_i = 4, pos_j = 4\<rparr> \<lparr>pos_i = 3, pos_j = 4\<rparr>"
  have r: "reachable ?g"
    by (rule reachable_fresh)
       (simp_all add: in_field_def in_array_def field_width_def field_height_def)
  have k: "?g = handle_key SCANCODE_OTHER ?g"
    by (simp add: handle_key_def)
  have p: "is_fruit_in_direction ?g = Inr True"
    by (simp add: step_defs lone_snake_def)
  from fruit_ahead_never_blocked [OF r k p, of "always 0 0"] r p show ?thesis
    by (simp add: tick_fresh_eats k [symmetric])
qed

end
